theory Spec2Isabelle
  imports Main "HOL-Library.AList" "HOL-Library.Sublist"
begin

section \<open>Characters and the string helpers of the Python library\<close>

text \<open>
  A Python \<open>str\<close> is modelled as a \<open>string\<close>; a \<open>char\<close> stands for the code
  point with the same number, so the model covers text whose code points are below 256.
  The three character classes below are the ones the Python library uses on such code
  points: \<open>str.isspace\<close> (also the class \<open>\s\<close> of \<open>re\<close>), the class \<open>\w\<close> of
  \<open>re\<close>, and \<open>str.lower\<close>.
\<close>

definition code :: "char \<Rightarrow> nat" where
  "code c = of_char c"

definition is_space :: "char \<Rightarrow> bool" where
  "is_space c = (let n = code c in
     (9 \<le> n \<and> n \<le> 13) \<or> (28 \<le> n \<and> n \<le> 32) \<or> n = 133 \<or> n = 160)"

definition is_word :: "char \<Rightarrow> bool" where
  "is_word c = (let n = code c in
     (48 \<le> n \<and> n \<le> 57) \<or> (65 \<le> n \<and> n \<le> 90) \<or> n = 95 \<or> (97 \<le> n \<and> n \<le> 122) \<or>
     n = 170 \<or> n = 178 \<or> n = 179 \<or> n = 181 \<or> n = 185 \<or> n = 186 \<or>
     (188 \<le> n \<and> n \<le> 190) \<or> (192 \<le> n \<and> n \<le> 214) \<or> (216 \<le> n \<and> n \<le> 246) \<or>
     248 \<le> n)"

definition newline :: char where
  "newline = CHR 0x0A"

definition lower_char :: "char \<Rightarrow> char" where
  "lower_char c = (let n = code c in
     if (65 \<le> n \<and> n \<le> 90) \<or> (192 \<le> n \<and> n \<le> 214) \<or> (216 \<le> n \<and> n \<le> 222)
     then char_of (n + 32) else c)"

text \<open>\<open>s.lower()\<close>\<close>

definition lower :: "string \<Rightarrow> string" where
  "lower s = map lower_char s"

text \<open>\<open>s.strip()\<close>: whitespace removed at both ends.\<close>

definition lstrip :: "string \<Rightarrow> string" where
  "lstrip s = dropWhile is_space s"

definition rstrip :: "string \<Rightarrow> string" where
  "rstrip s = rev (dropWhile is_space (rev s))"

definition strip :: "string \<Rightarrow> string" where
  "strip s = rstrip (lstrip s)"

text \<open>\<open>s.rstrip(chars)\<close>: the trailing characters that occur in \<open>chars\<close> removed.\<close>

definition rstrip_chars :: "string \<Rightarrow> string \<Rightarrow> string" where
  "rstrip_chars s chars = rev (dropWhile (\<lambda>c. c \<in> set chars) (rev s))"

text \<open>\<open>s.startswith(p)\<close>\<close>

definition startswith :: "string \<Rightarrow> string \<Rightarrow> bool" where
  "startswith s p = (take (length p) s = p)"

text \<open>\<open>os.path.basename(p)\<close>: what follows the last \<open>/\<close>.\<close>

definition basename :: "string \<Rightarrow> string" where
  "basename p = rev (takeWhile (\<lambda>c. c \<noteq> CHR ''/'') (rev p))"

section \<open>BuildConfig\<close>

text \<open>
  The class \<open>BuildConfig\<close>: the fields \<open>gen\<close>, \<open>subcfg\<close>, \<open>val\<close> and \<open>orig\<close> (the
  source line, \<open>None\<close> for an inferred configuration).
\<close>

record BuildConfig =
  gen :: string
  subcfg :: string
  val :: string
  orig :: "string option"

text \<open>\<open>x or ''\<close> for an \<open>x\<close> that is a string or \<open>None\<close>.\<close>

fun or_empty :: "string option \<Rightarrow> string" where
  "or_empty None = []"
| "or_empty (Some s) = (if s = [] then [] else s)"

text \<open>\<open>BuildConfig.__init__\<close>\<close>

definition mkBuildConfig :: "string option \<Rightarrow> string option \<Rightarrow> string option \<Rightarrow> string option \<Rightarrow> BuildConfig" where
  "mkBuildConfig generator config_name value source =
     \<lparr>gen = or_empty generator, subcfg = or_empty config_name, val = or_empty value, orig = source\<rparr>"

subsection \<open>The regular expression of \<open>from_makefile\<close>\<close>

text \<open>
  \<^verbatim>\<open>re.match(r'^CFG__(\w+?)(?:\s|__(\w+)?).*?=\s*(.*?)\s*$', cfg)\<close>

  The backtracking matcher of \<open>re\<close> is written out stage by stage, from the end of the
  pattern to its start. Each stage tries its alternatives in the order in which \<open>re\<close>
  tries them (a lazy quantifier the shortest repetition first, a greedy one the longest
  first) and returns the groups of the first attempt for which the rest of the pattern
  matches.
\<close>

text \<open>\<open>$\<close>: at the end of the string, or before a newline that ends the string.\<close>

definition at_eol :: "string \<Rightarrow> bool" where
  "at_eol s = (s = [] \<or> s = [newline])"

text \<open>\<open>\s*$\<close>\<close>

fun ws_eol :: "string \<Rightarrow> bool" where
  "ws_eol [] = at_eol []"
| "ws_eol (c # cs) = ((is_space c \<and> ws_eol cs) \<or> at_eol (c # cs))"

text \<open>\<open>(.*?)\s*$\<close>: the third group, lazy; \<open>.\<close> matches every character but a newline.\<close>

fun value_lazy :: "string \<Rightarrow> string \<Rightarrow> string option" where
  "value_lazy acc [] = (if ws_eol [] then Some acc else None)"
| "value_lazy acc (c # cs) =
     (if ws_eol (c # cs) then Some acc
      else if c = newline then None
      else value_lazy (acc @ [c]) cs)"

text \<open>\<open>\s*(.*?)\s*$\<close>: greedy whitespace, then the value.\<close>

fun after_eq :: "string \<Rightarrow> string option" where
  "after_eq [] = value_lazy [] []"
| "after_eq (c # cs) =
     (case (if is_space c then after_eq cs else None) of
        Some v \<Rightarrow> Some v
      | None \<Rightarrow> value_lazy [] (c # cs))"

text \<open>\<open>.*?=\s*(.*?)\s*$\<close>: the lazy filler, then the equals sign.\<close>

fun filler_eq :: "string \<Rightarrow> string option" where
  "filler_eq [] = None"
| "filler_eq (c # cs) =
     (case (if c = CHR ''='' then after_eq cs else None) of
        Some v \<Rightarrow> Some v
      | None \<Rightarrow> if c = newline then None else filler_eq cs)"

text \<open>
  \<open>(\w+).*?=\s*(.*?)\s*$\<close>: the second group, greedy; \<open>acc\<close> holds the word
  characters taken so far.
\<close>

fun subcfg_greedy :: "string \<Rightarrow> string \<Rightarrow> (string \<times> string) option" where
  "subcfg_greedy acc [] =
     (if acc = [] then None else map_option (Pair acc) (filler_eq []))"
| "subcfg_greedy acc (c # cs) =
     (case (if is_word c then subcfg_greedy (acc @ [c]) cs else None) of
        Some r \<Rightarrow> Some r
      | None \<Rightarrow> if acc = [] then None else map_option (Pair acc) (filler_eq (c # cs)))"

text \<open>
  \<open>(?:\s|__(\w+)?).*?=\s*(.*?)\s*$\<close>: first the alternative \<open>\s\<close>, then the
  alternative \<open>__\<close> with the optional group, taken if it can be.
\<close>

definition separator :: "string \<Rightarrow> (string option \<times> string) option" where
  "separator s =
     (case (case s of [] \<Rightarrow> None
            | c # cs \<Rightarrow> if is_space c then map_option (Pair None) (filler_eq cs) else None) of
        Some r \<Rightarrow> Some r
      | None \<Rightarrow>
          (case s of
             a # b # r \<Rightarrow>
               if a = CHR ''_'' \<and> b = CHR ''_'' then
                 (case subcfg_greedy [] r of
                    Some (sub, v) \<Rightarrow> Some (Some sub, v)
                  | None \<Rightarrow> map_option (Pair None) (filler_eq r))
               else None
           | _ \<Rightarrow> None))"

text \<open>\<open>(\w+?)\<close> and the rest of the pattern: the first group, lazy.\<close>

fun gen_lazy :: "string \<Rightarrow> string \<Rightarrow> (string \<times> string option \<times> string) option" where
  "gen_lazy acc [] = None"
| "gen_lazy acc (c # cs) =
     (if is_word c then
        (case separator cs of
           Some (sub, v) \<Rightarrow> Some (acc @ [c], sub, v)
         | None \<Rightarrow> gen_lazy (acc @ [c]) cs)
      else None)"

text \<open>The whole pattern, matched at the start of the string; the result is \<open>m.group(1, 2, 3)\<close>.\<close>

definition re_match_cfg :: "string \<Rightarrow> (string \<times> string option \<times> string) option" where
  "re_match_cfg s =
     (if startswith s ''CFG__'' then gen_lazy [] (drop 5 s) else None)"

text \<open>\<open>BuildConfig.from_makefile\<close>\<close>

definition from_makefile :: "string \<Rightarrow> BuildConfig option" where
  "from_makefile cfg =
     (case re_match_cfg cfg of
        None \<Rightarrow> None
      | Some (generator, config_name, value) \<Rightarrow>
          Some (mkBuildConfig (Some generator) config_name (Some value) (Some cfg)))"


section \<open>ProjectMakefile\<close>

text \<open>
  \<open>BuildConfig\<close> defines no \<open>__eq__\<close>, so \<open>list.remove\<close> compares objects by
  identity. An object is a pair of its identity and its fields. The object that
  \<open>from_makefile\<close> creates for line \<open>i\<close> has the identity \<open>i\<close>; the objects created
  after the scan take the numbers from \<open>num_lines\<close> on.
\<close>

type_synonym obj = "nat \<times> BuildConfig"

text \<open>
  The two messages of \<open>warn\<close>, each with the generator and the line number \<open>i + 1\<close>
  that it prints:
  \<^verbatim>\<open>invalid configuration specified for {gen} in Makefile:{i + 1}\<close> and
  \<^verbatim>\<open>using overriding configuration for {gen} from Makefile:{i + 1}\<close>.
\<close>

datatype diag = InvalidConfiguration string nat | OverridingConfiguration string nat

fun diag_line :: "diag \<Rightarrow> nat" where
  "diag_line (InvalidConfiguration g k) = k"
| "diag_line (OverridingConfiguration g k) = k"

datatype error = ValueError | SyntaxError | NameError | TypeError

text \<open>The local variables of \<open>_parse_makefile\<close>, and the warnings written so far.\<close>

record parse_state =
  saw_generator_comment :: bool
  after_comment :: nat
  cfg_start :: nat
  cfg_end :: nat
  last_cfg :: nat
  configurations :: "obj list"
  invalid_configurations :: "obj list"
  generator2configs :: "(string \<times> (string \<times> obj) list) list"
  warnings :: "diag list"

text \<open>
  \<open>os.path.basename(gen).rstrip('.gen.cpp')\<close>, for a path \<open>gen\<close> that
  \<open>glob.glob\<close> returned.
\<close>

definition generator_name :: "string \<Rightarrow> string" where
  "generator_name path = rstrip_chars (basename path) ''.gen.cpp''"

text \<open>
  The table of the valid generators (lines 64 to 66): a dictionary with an empty
  dictionary for each generator, in the order of the paths. The dictionaries are
  association lists; \<open>AList.update\<close> keeps the position of a key that is there and
  appends a new one, as a Python dictionary does.
\<close>

definition known_generators :: "string list \<Rightarrow> (string \<times> (string \<times> obj) list) list" where
  "known_generators paths = fold (\<lambda>p d. AList.update (generator_name p) [] d) paths []"

definition init_state :: "nat \<Rightarrow> string list \<Rightarrow> parse_state" where
  "init_state num_lines paths =
     \<lparr>saw_generator_comment = False, after_comment = num_lines, cfg_start = num_lines,
      cfg_end = num_lines, last_cfg = num_lines, configurations = [],
      invalid_configurations = [], generator2configs = known_generators paths,
      warnings = []\<rparr>"

text \<open>
  Lines 87 to 98: what the loop does with a configuration while the block is open.
  \<open>configurations.remove(old_config)\<close> raises \<open>ValueError\<close> when the object is not in
  the list.
\<close>

definition register :: "nat \<Rightarrow> obj \<Rightarrow> parse_state \<Rightarrow> error + parse_state" where
  "register i config s =
     (case map_of (generator2configs s) (gen (snd config)) of
        None \<Rightarrow>
          Inr (s\<lparr>warnings := warnings s @ [InvalidConfiguration (gen (snd config)) (i + 1)],
                 invalid_configurations := invalid_configurations s @ [config],
                 last_cfg := i\<rparr>)
      | Some cfgs \<Rightarrow>
          (case (case map_of cfgs (subcfg (snd config)) of
                   None \<Rightarrow> Inr s
                 | Some old_config \<Rightarrow>
                     if old_config \<in> set (configurations s) then
                       Inr (s\<lparr>warnings := warnings s @
                                  [OverridingConfiguration (gen (snd config)) (i + 1)],
                              configurations := remove1 old_config (configurations s),
                              invalid_configurations := invalid_configurations s @ [old_config]\<rparr>)
                     else Inl ValueError) of
             Inl e \<Rightarrow> Inl e
           | Inr s1 \<Rightarrow>
               Inr (s1\<lparr>generator2configs :=
                           AList.update (gen (snd config))
                             (AList.update (subcfg (snd config)) config cfgs)
                             (generator2configs s1),
                        configurations := configurations s1 @ [config],
                        last_cfg := i\<rparr>)))"

text \<open>The body of the loop over \<open>enumerate(self._lines)\<close>, lines 72 to 101.\<close>

definition loop_body :: "nat \<Rightarrow> nat \<Rightarrow> string \<Rightarrow> parse_state \<Rightarrow> error + parse_state" where
  "loop_body num_lines i line s =
     (if strip line = [] then
        Inr (if saw_generator_comment s \<and> after_comment s = num_lines
             then s\<lparr>after_comment := i\<rparr> else s)
      else
        let s1 = (if startswith line ''# Configure generators''
                  then s\<lparr>saw_generator_comment := True\<rparr> else s);
            s2 = (if saw_generator_comment s1 \<and> after_comment s1 = num_lines \<and>
                     \<not> startswith (strip line) ''#''
                  then s1\<lparr>after_comment := i\<rparr> else s1);
            config = from_makefile line;
            s3 = (if cfg_start s2 = num_lines \<and> config \<noteq> None
                  then s2\<lparr>cfg_start := i\<rparr> else s2)
        in case (case config of
                   Some c \<Rightarrow> if cfg_end s3 = num_lines then register i (i, c) s3 else Inr s3
                 | None \<Rightarrow> Inr s3) of
             Inl e \<Rightarrow> Inl e
           | Inr s4 \<Rightarrow>
               Inr (if cfg_start s4 < num_lines \<and> cfg_end s4 = num_lines \<and> config = None
                    then s4\<lparr>cfg_end := last_cfg s4 + 1\<rparr> else s4))"

text \<open>The loop, from line \<open>i\<close> on.\<close>

fun scan_lines :: "nat \<Rightarrow> nat \<Rightarrow> string list \<Rightarrow> parse_state \<Rightarrow> error + parse_state" where
  "scan_lines num_lines i [] s = Inr s"
| "scan_lines num_lines i (line # rest) s =
     (case loop_body num_lines i line s of
        Inl e \<Rightarrow> Inl e
      | Inr s' \<Rightarrow> scan_lines num_lines (Suc i) rest s')"

text \<open>
  Lines 104 to 107: the loop over the generators of the table. \<open>k\<close> is the identity of
  the next object; each inferred configuration is built twice, once for the table and
  once for the list.
\<close>

fun infer_defaults :: "nat \<Rightarrow> string list \<Rightarrow> parse_state \<Rightarrow> parse_state" where
  "infer_defaults k [] s = s"
| "infer_defaults k (g # gs) s =
     (case map_of (generator2configs s) g of
        Some [] \<Rightarrow>
          infer_defaults (k + 2) gs
            (s\<lparr>generator2configs :=
                  AList.update g
                    [([], (k, mkBuildConfig (Some g) (Some []) (Some []) None))]
                    (generator2configs s),
               configurations := configurations s @
                  [(k + 1, mkBuildConfig (Some g) (Some []) (Some []) None)]\<rparr>)
      | _ \<Rightarrow> infer_defaults k gs s)"

text \<open>
  \<open>_parse_makefile\<close>, for the paths that \<open>glob.glob\<close> returns and the lines of the
  makefile. The result is the final state: its \<open>configurations\<close> and
  \<open>invalid_configurations\<close> are the two lists returned, \<open>after_comment\<close>, \<open>cfg_start\<close>
  and \<open>cfg_end\<close> the attributes set.
\<close>

definition parse_makefile :: "string list \<Rightarrow> string list \<Rightarrow> error + parse_state" where
  "parse_makefile paths lines =
     (let num_lines = length lines in
      case scan_lines num_lines 0 lines (init_state num_lines paths) of
        Inl e \<Rightarrow> Inl e
      | Inr s \<Rightarrow> Inr (infer_defaults num_lines (map fst (generator2configs s)) s))"

text \<open>What line 113 prints.\<close>

definition printed_anchors :: "parse_state \<Rightarrow> nat \<times> nat \<times> nat" where
  "printed_anchors s = (after_comment s + 1, cfg_start s + 1, cfg_end s + 1)"


section \<open>expand_template\<close>

text \<open>
  The values of the environment and the results of an expression: a string, \<open>None\<close>,
  or any other object, given by what \<open>str\<close> returns for it.
\<close>

datatype pyval = PyStr string | PyNone | PyObj string

text \<open>\<open>str(v)\<close>\<close>

fun py_str :: "pyval \<Rightarrow> string" where
  "py_str (PyStr s) = s"
| "py_str PyNone = ''None''"
| "py_str (PyObj r) = r"

text \<open>
  The syntax tree of an expression, as far as \<open>expand_template\<close> looks into it: a
  \<open>Name\<close> that is read, or any other node, with a label (its class and its fields that
  are no expressions) and its subexpressions. Nodes that bind a name (a lambda, a
  comprehension, an assignment expression) are outside the model.
\<close>

datatype expr = Name string | Node string "expr list"

text \<open>
  \<open>ast.parse(src, mode='eval')\<close>, \<open>compile\<close> and \<open>eval\<close> belong to Python and not to
  this program. Two parameters stand for them in what follows: \<open>py_parse\<close> is the
  parser (\<open>None\<close> for a source that raises \<open>SyntaxError\<close>), and \<open>py_node\<close> gives the
  value of a node other than a name from its label and the results of its
  subexpressions. What is fixed is the case that the claims are about: a source that is
  one identifier parses to the name. The identifiers are those of ASCII letters, digits
  and underscores; a keyword is no identifier, and the names that become a keyword or
  \<open>__debug__\<close> once they are in lower case are left to \<open>py_parse\<close>.
\<close>

definition py_keywords :: "string list" where
  "py_keywords = [''False'', ''None'', ''True'', ''and'', ''as'', ''assert'', ''async'', ''await'',
     ''break'', ''class'', ''continue'', ''def'', ''del'', ''elif'', ''else'', ''except'',
     ''finally'', ''for'', ''from'', ''global'', ''if'', ''import'', ''in'', ''is'', ''lambda'',
     ''nonlocal'', ''not'', ''or'', ''pass'', ''raise'', ''return'', ''try'', ''while'', ''with'',
     ''yield'']"

definition is_ident_start :: "char \<Rightarrow> bool" where
  "is_ident_start c = (let n = code c in
     (65 \<le> n \<and> n \<le> 90) \<or> n = 95 \<or> (97 \<le> n \<and> n \<le> 122))"

definition is_ident_char :: "char \<Rightarrow> bool" where
  "is_ident_char c = (let n = code c in
     (48 \<le> n \<and> n \<le> 57) \<or> (65 \<le> n \<and> n \<le> 90) \<or> n = 95 \<or> (97 \<le> n \<and> n \<le> 122))"

definition is_identifier :: "string \<Rightarrow> bool" where
  "is_identifier s =
     (case s of
        [] \<Rightarrow> False
      | c # cs \<Rightarrow> is_ident_start c \<and> list_all is_ident_char cs \<and>
          \<not> List.member py_keywords s \<and> \<not> List.member py_keywords (lower s) \<and>
          lower s \<noteq> ''__debug__'')"

definition ast_parse :: "(string \<Rightarrow> expr option) \<Rightarrow> string \<Rightarrow> expr option" where
  "ast_parse py_parse src = (if is_identifier src then Some (Name src) else py_parse src)"

text \<open>The names that \<open>ast.walk\<close> finds.\<close>

fun names_of :: "expr \<Rightarrow> string list" where
  "names_of (Name x) = [x]"
| "names_of (Node l es) = concat (map names_of es)"

text \<open>The expression after \<open>get_names\<close> has set \<open>node.id = node.id.lower()\<close> in it.\<close>

fun lower_names :: "expr \<Rightarrow> expr" where
  "lower_names (Name x) = Name (lower x)"
| "lower_names (Node l es) = Node l (map lower_names es)"

text \<open>
  \<open>get_names\<close>: the list of a set, so each name once. Python fixes no order for it; the
  same list gives the parameters of the function and its arguments at the call.
\<close>

definition get_names :: "expr \<Rightarrow> string list" where
  "get_names e = remdups (map lower (names_of e))"

text \<open>The value of an expression whose names are bound to strings.\<close>

fun eval_expr :: "(string \<Rightarrow> (error + pyval) list \<Rightarrow> error + pyval) \<Rightarrow>
    (string \<times> string) list \<Rightarrow> expr \<Rightarrow> error + pyval" where
  "eval_expr py_node vars (Name x) =
     (case map_of vars x of None \<Rightarrow> Inl NameError | Some v \<Rightarrow> Inr (PyStr v))"
| "eval_expr py_node vars (Node l es) = py_node l (map (eval_expr py_node vars) es)"

text \<open>
  The function that \<open>mkfun\<close> compiles, \<open>lambda names: body\<close>, and its call \<open>f(*args)\<close>.
\<close>

type_synonym pyfun = "string list \<times> expr"

definition call_fun :: "(string \<Rightarrow> (error + pyval) list \<Rightarrow> error + pyval) \<Rightarrow>
    pyfun \<Rightarrow> string list \<Rightarrow> error + pyval" where
  "call_fun py_node f args = eval_expr py_node (zip (fst f) args) (snd f)"

text \<open>
  \<open>mkfun\<close>, with the dictionary \<open>funs\<close> passed through. Its key is \<open>ast.dump\<close> of the
  expression as it was parsed, before the names are set to lower case.
\<close>

definition mkfun :: "(expr \<times> pyfun) list \<Rightarrow> expr \<Rightarrow> pyfun \<times> (expr \<times> pyfun) list" where
  "mkfun funs expression =
     (case map_of funs expression of
        Some v \<Rightarrow> (v, funs)
      | None \<Rightarrow>
          let names = get_names expression;
              body = lower_names expression;
              v = (names, body)
          in (v, AList.update expression v funs))"

text \<open>\<open>env.get(name)\<close>\<close>

definition env_get :: "(string \<times> pyval) list \<Rightarrow> string \<Rightarrow> pyval" where
  "env_get env name = (case map_of env name of None \<Rightarrow> PyNone | Some v \<Rightarrow> v)"

text \<open>\<open>expand\<close>\<close>

definition expand :: "(string \<Rightarrow> expr option) \<Rightarrow> (string \<Rightarrow> (error + pyval) list \<Rightarrow> error + pyval) \<Rightarrow>
    (string \<times> pyval) list \<Rightarrow> (expr \<times> pyfun) list \<Rightarrow> string \<Rightarrow>
    error + pyval \<times> (expr \<times> pyfun) list" where
  "expand py_parse py_node env funs src =
     (case ast_parse py_parse src of
        None \<Rightarrow> Inl SyntaxError
      | Some ex \<Rightarrow>
          (let (f, funs') = mkfun funs ex;
               args = map (\<lambda>name. or_empty (Some (py_str (env_get env name)))) (fst f)
           in (case call_fun py_node f args of
                 Inl e \<Rightarrow> Inl e
               | Inr v \<Rightarrow> Inr (v, funs'))))"

text \<open>
  \<^verbatim>\<open>re.sub(r'\${([^}]+)}', lambda m: expand(m.group(1)), template)\<close>

  A match of the pattern at the start of \<open>s\<close>: the group and the text after the match.
  The greedy \<open>[^}]+\<close> takes all there is before the first \<open>}\<close>; no shorter repetition
  is followed by a \<open>}\<close>.
\<close>

definition placeholder_at :: "string \<Rightarrow> (string \<times> string) option" where
  "placeholder_at s =
     (case s of
        a # b # r \<Rightarrow>
          if a = CHR ''$'' \<and> b = CHR ''{'' then
            (let src = takeWhile (\<lambda>c. c \<noteq> CHR ''}'') r;
                 rest = dropWhile (\<lambda>c. c \<noteq> CHR ''}'') r
             in if src \<noteq> [] \<and> rest \<noteq> [] then Some (src, tl rest) else None)
          else None
      | _ \<Rightarrow> None)"

text \<open>
  The scan of \<open>re.sub\<close>, from left to right: at each position, the replacement of a
  match, or else the character. The pieces are joined at the end. \<open>repl\<close> is the
  function called for a match; \<open>st\<close> is the state it reads and changes.
\<close>

function re_sub_pieces :: "('st \<Rightarrow> string \<Rightarrow> error + pyval \<times> 'st) \<Rightarrow> 'st \<Rightarrow> string \<Rightarrow>
    error + pyval list" where
  "re_sub_pieces repl st [] = Inr []"
| "re_sub_pieces repl st (c # cs) =
     (case placeholder_at (c # cs) of
        None \<Rightarrow>
          (case re_sub_pieces repl st cs of
             Inl e \<Rightarrow> Inl e
           | Inr ps \<Rightarrow> Inr (PyStr [c] # ps))
      | Some (src, rest) \<Rightarrow>
          (case repl st src of
             Inl e \<Rightarrow> Inl e
           | Inr (v, st') \<Rightarrow>
               (case re_sub_pieces repl st' rest of
                  Inl e \<Rightarrow> Inl e
                | Inr ps \<Rightarrow> Inr (v # ps))))"
  by pat_completeness auto
termination
proof (relation "measure (\<lambda>(repl, st, s). length s)")
  fix repl :: "'st \<Rightarrow> string \<Rightarrow> error + pyval \<times> 'st" and st st' :: 'st and c cs x src rest y v
  assume "placeholder_at (c # cs) = Some x" and "(src, rest) = x"
  then obtain r where r: "cs = CHR ''{'' # r" "rest = tl (dropWhile (\<lambda>c. c \<noteq> CHR ''}'') r)"
    by (auto simp: placeholder_at_def Let_def split: list.splits if_splits)
  have "length (tl (dropWhile (\<lambda>c. c \<noteq> CHR ''}'') r)) \<le> length (dropWhile (\<lambda>c. c \<noteq> CHR ''}'') r)"
    by simp
  also have "\<dots> \<le> length r" by (rule length_dropWhile_le)
  finally have "length rest < length (c # cs)" using r by simp
  then show "((repl, st', rest), repl, st, c # cs) \<in> measure (\<lambda>(repl, st, s). length s)"
    by simp
qed auto

text \<open>
  The join at the end of \<open>re.sub\<close>: a replacement that is \<open>None\<close> is left out, one that
  is neither a string nor \<open>None\<close> raises \<open>TypeError\<close>.
\<close>

fun join_pieces :: "pyval list \<Rightarrow> error + string" where
  "join_pieces [] = Inr []"
| "join_pieces (PyStr t # ps) =
     (case join_pieces ps of Inl e \<Rightarrow> Inl e | Inr r \<Rightarrow> Inr (t @ r))"
| "join_pieces (PyNone # ps) = join_pieces ps"
| "join_pieces (PyObj r # ps) = Inl TypeError"

text \<open>
  The environment of \<open>expand_template\<close>: the keys of \<open>env\<close> in lower case, updated with
  those of \<open>kwargs\<close>.
\<close>

definition lower_keys :: "(string \<times> pyval) list \<Rightarrow> (string \<times> pyval) list \<Rightarrow> (string \<times> pyval) list" where
  "lower_keys items d = fold (\<lambda>(k, v) d. AList.update (lower k) v d) items d"

text \<open>\<open>expand_template\<close>; an absent or empty \<open>env\<close> is the empty list.\<close>

definition expand_template :: "(string \<Rightarrow> expr option) \<Rightarrow>
    (string \<Rightarrow> (error + pyval) list \<Rightarrow> error + pyval) \<Rightarrow>
    string \<Rightarrow> (string \<times> pyval) list \<Rightarrow> (string \<times> pyval) list \<Rightarrow> error + string" where
  "expand_template py_parse py_node template env kwargs =
     (let env' = lower_keys kwargs (lower_keys env []) in
      case re_sub_pieces (expand py_parse py_node env') [] template of
        Inl e \<Rightarrow> Inl e
      | Inr ps \<Rightarrow> join_pieces ps)"


section \<open>Notions used to state the properties\<close>

subsection \<open>The shape of a configuration line\<close>

text \<open>
  What may stand between the generator and the filler: one whitespace character, or
  \<open>__\<close>, or \<open>__\<close> and a subconfig of word characters. The second argument is the
  second group of the match.
\<close>

definition sep_ok :: "string \<Rightarrow> string option \<Rightarrow> bool" where
  "sep_ok sep sub =
     ((\<exists>c. sep = [c] \<and> is_space c \<and> sub = None) \<or>
      (sep = ''__'' \<and> sub = None) \<or>
      (\<exists>w. sep = ''__'' @ w \<and> w \<noteq> [] \<and> list_all is_word w \<and> sub = Some w))"

text \<open>
  \<open>cfg_line l g sub v\<close>: the line \<open>l\<close> can be read as a configuration with generator
  \<open>g\<close>, second group \<open>sub\<close> and value \<open>v\<close>. It starts with \<open>CFG__\<close> and the generator;
  then comes the separator, a filler without newline, the equals sign and the rest,
  whose text without the whitespace around it is the value and holds no newline.
\<close>

definition cfg_line :: "string \<Rightarrow> string \<Rightarrow> string option \<Rightarrow> string \<Rightarrow> bool" where
  "cfg_line l g sub v =
     (\<exists>sep fill r. l = ''CFG__'' @ g @ sep @ fill @ ''='' @ r \<and>
        g \<noteq> [] \<and> list_all is_word g \<and> sep_ok sep sub \<and>
        newline \<notin> set fill \<and> v = strip r \<and> newline \<notin> set v)"

text \<open>
  \<open>cfg_match l g sub v\<close>: of the readings of \<open>l\<close>, the one that the pattern takes. Its
  generator is a shortest one; after \<open>__\<close> the subconfig takes every word character
  there is, so that the text after it starts with none; and the equals sign is the
  first one after the separator that can be taken: for every earlier one, the text
  after it, without the whitespace around it, holds a newline.
\<close>

definition cfg_match :: "string \<Rightarrow> string \<Rightarrow> string option \<Rightarrow> string \<Rightarrow> bool" where
  "cfg_match l g sub v =
     (\<exists>sep fill r. l = ''CFG__'' @ g @ sep @ fill @ ''='' @ r \<and>
        g \<noteq> [] \<and> list_all is_word g \<and> sep_ok sep sub \<and>
        newline \<notin> set fill \<and> v = strip r \<and> newline \<notin> set v \<and>
        (\<forall>g' sub' v'. cfg_line l g' sub' v' \<longrightarrow> length g \<le> length g') \<and>
        (is_space (hd sep) \<or> \<not> is_word (hd (fill @ ''=''))) \<and>
        (\<forall>fill' r'. fill @ ''='' @ r = fill' @ ''='' @ r' \<and> length fill' < length fill \<longrightarrow>
           newline \<in> set (strip r')))"

text \<open>
  The reading of the specification: the line contains \<open>CFG__\<close>, a generator of word
  characters, optionally \<open>__\<close> and a subconfig, any filler, the equals sign and the
  value.
\<close>

definition spec_cfg_line :: "string \<Rightarrow> bool" where
  "spec_cfg_line l =
     (\<exists>pre g sep fill r. l = pre @ ''CFG__'' @ g @ sep @ fill @ ''='' @ r \<and>
        g \<noteq> [] \<and> list_all is_word g \<and>
        (sep = [] \<or> (\<exists>w. sep = ''__'' @ w \<and> w \<noteq> [] \<and> list_all is_word w)))"

subsection \<open>The lines of a makefile\<close>

definition is_blank :: "string \<Rightarrow> bool" where
  "is_blank line = (strip line = [])"

definition is_cfg :: "string \<Rightarrow> bool" where
  "is_cfg line = (from_makefile line \<noteq> None)"

definition is_header :: "string \<Rightarrow> bool" where
  "is_header line = startswith line ''# Configure generators''"

definition is_comment :: "string \<Rightarrow> bool" where
  "is_comment line = startswith (strip line) ''#''"

text \<open>
  The end of the block is fixed before line \<open>j\<close> is read: a line before \<open>j\<close> that is
  neither blank nor a configuration follows a configuration line.
\<close>

definition finalised :: "string list \<Rightarrow> nat \<Rightarrow> bool" where
  "finalised lines j =
     (\<exists>b\<in>{..<j}. \<exists>a\<in>{..<b}. is_cfg (lines ! a) \<and> \<not> is_blank (lines ! b) \<and> \<not> is_cfg (lines ! b))"

text \<open>
  The objects of the configuration lines among the first \<open>k\<close> lines that are read
  while the block is open, in the order of the lines.
\<close>

definition processed :: "string list \<Rightarrow> nat \<Rightarrow> obj list" where
  "processed lines k =
     List.map_filter
       (\<lambda>j. if finalised lines j then None else map_option (Pair j) (from_makefile (lines ! j)))
       [0..<k]"

definition pair_of :: "obj \<Rightarrow> string \<times> string" where
  "pair_of c = (gen (snd c), subcfg (snd c))"

text \<open>
  Line \<open>j\<close> sets \<open>after_comment\<close> if nothing has set it before: a header comment has
  been read, and the line is blank or is no comment.
\<close>

definition sets_after_comment :: "string list \<Rightarrow> nat \<Rightarrow> bool" where
  "sets_after_comment lines j =
     ((\<exists>h\<in>{..<j}. is_header (lines ! h)) \<and> (is_blank (lines ! j) \<or> \<not> is_comment (lines ! j)))"

subsection \<open>The invariant of the scan\<close>

text \<open>The declarations of a pair in a list of objects.\<close>

definition decls :: "obj list \<Rightarrow> string \<times> string \<Rightarrow> obj list" where
  "decls cs p = filter (\<lambda>c. pair_of c = p) cs"

text \<open>\<open>generator2configs[g][sub]\<close>, if there is one: the object that holds the pair.\<close>

definition claimed :: "parse_state \<Rightarrow> string \<Rightarrow> string \<Rightarrow> obj option" where
  "claimed s g sub =
     (case map_of (generator2configs s) g of None \<Rightarrow> None | Some cfgs \<Rightarrow> map_of cfgs sub)"

text \<open>
  The two lists, the table and the warnings after the objects \<open>H\<close> have been read
  while the block was open; \<open>keys\<close> are the generators of the table.
\<close>

definition table_inv :: "string list \<Rightarrow> obj list \<Rightarrow> parse_state \<Rightarrow> bool" where
  "table_inv keys H s =
     (map fst (generator2configs s) = keys \<and>
      (\<forall>g sub.
         (g \<in> set keys \<longrightarrow>
            decls (configurations s) (g, sub) =
              (if decls H (g, sub) = [] then [] else [last (decls H (g, sub))]) \<and>
            decls (invalid_configurations s) (g, sub) = butlast (decls H (g, sub)) \<and>
            claimed s g sub =
              (if decls H (g, sub) = [] then None else Some (last (decls H (g, sub))))) \<and>
         (g \<notin> set keys \<longrightarrow>
            decls (configurations s) (g, sub) = [] \<and>
            decls (invalid_configurations s) (g, sub) = decls H (g, sub))) \<and>
      (\<forall>d\<in>set (warnings s). \<exists>c\<in>set H. diag_line d = fst c + 1))"

text \<open>\<open>a\<close> is the value of \<open>after_comment\<close> after the first \<open>k\<close> lines of \<open>L\<close>.\<close>

definition after_comment_inv :: "string list \<Rightarrow> nat \<Rightarrow> nat \<Rightarrow> bool" where
  "after_comment_inv L k a =
     ((a = length L \<and> (\<forall>j<k. \<not> sets_after_comment L j)) \<or>
      (a < k \<and> sets_after_comment L a \<and> (\<forall>j<a. \<not> sets_after_comment L j)))"

text \<open>The state after the first \<open>k\<close> lines of \<open>L\<close>.\<close>

definition scan_inv :: "string list \<Rightarrow> string list \<Rightarrow> nat \<Rightarrow> parse_state \<Rightarrow> bool" where
  "scan_inv keys L k s =
     (table_inv keys (processed L k) s \<and>
      (cfg_start s = length L \<or> cfg_start s < k) \<and>
      (cfg_start s \<noteq> length L \<longleftrightarrow> (\<exists>a<k. is_cfg (L ! a))) \<and>
      (cfg_start s \<noteq> length L \<longrightarrow>
         is_cfg (L ! cfg_start s) \<and> (\<forall>a<cfg_start s. \<not> is_cfg (L ! a))) \<and>
      (cfg_end s \<noteq> length L \<longleftrightarrow> finalised L k) \<and>
      (cfg_start s \<noteq> length L \<longrightarrow> last_cfg s < k) \<and>
      (saw_generator_comment s \<longleftrightarrow> (\<exists>h<k. is_header (L ! h))) \<and>
      after_comment_inv L k (after_comment s))"

section \<open>The regular expression: what it accepts and what it returns\<close>


lemma is_space_newline: "is_space newline"
  by (simp add: is_space_def newline_def code_def)

lemma ws_eol_iff: "ws_eol s = list_all is_space s"
  by (induction s) (auto simp: at_eol_def is_space_newline)

lemma rstrip_Nil: "rstrip [] = []"
  by (simp add: rstrip_def)

lemma rstrip_all_space: "list_all is_space s \<Longrightarrow> rstrip s = []"
  by (simp add: rstrip_def list_all_iff)

lemma rstrip_append:
  "rstrip (a @ b) = (if list_all is_space b then rstrip a else a @ rstrip b)"
  by (auto simp: rstrip_def list_all_iff dropWhile_append)

lemma rstrip_Cons:
  "rstrip (c # cs) = (if list_all is_space (c # cs) then [] else c # rstrip cs)"
  using rstrip_append [of "[c]" cs]
  by (auto simp: rstrip_def list_all_iff dropWhile_append)

lemma value_lazy_eq:
  "value_lazy acc s = (if newline \<in> set (rstrip s) then None else Some (acc @ rstrip s))"
proof (induction s arbitrary: acc)
  case Nil
  show ?case by (simp add: rstrip_Nil at_eol_def)
next
  case (Cons c cs)
  show ?case
  proof (cases "list_all is_space (c # cs)")
    case True
    then have "ws_eol (c # cs)" by (simp add: ws_eol_iff)
    with True show ?thesis by (simp add: rstrip_all_space del: ws_eol.simps)
  next
    case False
    then have "\<not> ws_eol (c # cs)" by (simp add: ws_eol_iff)
    with False Cons show ?thesis
      using is_space_newline by (auto simp: rstrip_Cons simp del: ws_eol.simps)
  qed
qed

lemma strip_space_Cons: "is_space c \<Longrightarrow> strip (c # cs) = strip cs"
  by (simp add: strip_def lstrip_def)

lemma strip_nonspace_Cons: "\<not> is_space c \<Longrightarrow> strip (c # cs) = rstrip (c # cs)"
  by (simp add: strip_def lstrip_def)

lemma set_strip_subset: "set (strip s) \<subseteq> set (rstrip s)"
proof -
  have "s = takeWhile is_space s @ lstrip s" by (simp add: lstrip_def)
  then have "rstrip s = rstrip (takeWhile is_space s @ lstrip s)" by simp
  also have "\<dots> = (if list_all is_space (lstrip s) then rstrip (takeWhile is_space s)
                    else takeWhile is_space s @ rstrip (lstrip s))"
    by (rule rstrip_append)
  finally show ?thesis
    by (auto simp: strip_def rstrip_all_space split: if_splits)
qed

lemma after_eq_eq:
  "after_eq s = (if newline \<in> set (strip s) then None else Some (strip s))"
proof (induction s)
  case Nil
  show ?case by (simp add: strip_def lstrip_def rstrip_Nil at_eol_def)
next
  case (Cons c cs)
  show ?case
  proof (cases "is_space c")
    case True
    show ?thesis
    proof (cases "newline \<in> set (strip cs)")
      case n: True
      then have "newline \<in> set (rstrip cs)" using set_strip_subset by blast
      then have "\<not> list_all is_space cs" by (auto simp: rstrip_all_space)
      with n True Cons \<open>newline \<in> set (rstrip cs)\<close> show ?thesis
        by (simp add: strip_space_Cons value_lazy_eq rstrip_Cons del: value_lazy.simps)
    next
      case False
      with True Cons show ?thesis by (simp add: strip_space_Cons)
    qed
  next
    case False
    then show ?thesis
      by (simp add: strip_nonspace_Cons value_lazy_eq del: value_lazy.simps)
  qed
qed

lemma filler_eq_sound:
  "filler_eq s = Some v \<Longrightarrow>
   \<exists>f r. s = f @ CHR ''='' # r \<and> newline \<notin> set f \<and> after_eq r = Some v"
proof (induction s)
  case Nil
  then show ?case by simp
next
  case (Cons c cs)
  show ?case
  proof (cases "c = CHR ''='' \<and> after_eq cs = Some v")
    case True
    then have "c # cs = [] @ CHR ''='' # cs \<and> newline \<notin> set [] \<and> after_eq cs = Some v" by simp
    then show ?thesis by blast
  next
    case False
    with Cons.prems have a: "c \<noteq> newline" and b: "filler_eq cs = Some v"
      by (auto split: if_splits option.splits)
    from Cons.IH [OF b] obtain f r where "cs = f @ CHR ''='' # r" "newline \<notin> set f" "after_eq r = Some v"
      by blast
    with a have "c # cs = (c # f) @ CHR ''='' # r \<and> newline \<notin> set (c # f) \<and> after_eq r = Some v"
      by auto
    then show ?thesis by blast
  qed
qed

lemma filler_eq_complete:
  "newline \<notin> set f \<Longrightarrow> after_eq r \<noteq> None \<Longrightarrow> filler_eq (f @ CHR ''='' # r) \<noteq> None"
  by (induction f) (auto split: option.splits)

lemma subcfg_greedy_sound:
  "subcfg_greedy acc s = Some (sub, v) \<Longrightarrow>
   \<exists>w r. s = w @ r \<and> sub = acc @ w \<and> list_all is_word w \<and> sub \<noteq> [] \<and> filler_eq r = Some v"
proof (induction s arbitrary: acc)
  case Nil
  then show ?case by (auto split: if_splits)
next
  case (Cons c cs)
  show ?case
  proof (cases "is_word c \<and> subcfg_greedy (acc @ [c]) cs = Some (sub, v)")
    case True
    then obtain w r where "cs = w @ r" "sub = (acc @ [c]) @ w" "list_all is_word w" "sub \<noteq> []"
        "filler_eq r = Some v"
      using Cons.IH by blast
    with True have "c # cs = (c # w) @ r \<and> sub = acc @ (c # w) \<and> list_all is_word (c # w) \<and> sub \<noteq> []
        \<and> filler_eq r = Some v" by simp
    then show ?thesis by blast
  next
    case False
    with Cons.prems have "acc \<noteq> []" "filler_eq (c # cs) = Some v" "sub = acc"
      by (auto split: if_splits option.splits simp del: filler_eq.simps)
    then have "c # cs = [] @ (c # cs) \<and> sub = acc @ [] \<and> list_all is_word [] \<and> sub \<noteq> []
        \<and> filler_eq (c # cs) = Some v" by simp
    then show ?thesis by blast
  qed
qed

lemma subcfg_greedy_complete:
  "list_all is_word w \<Longrightarrow> acc @ w \<noteq> [] \<Longrightarrow> filler_eq r \<noteq> None \<Longrightarrow>
   subcfg_greedy acc (w @ r) \<noteq> None"
proof (induction w arbitrary: acc)
  case Nil
  then show ?case by (cases r) (auto split: option.splits simp del: filler_eq.simps)
next
  case (Cons x xs)
  then have "subcfg_greedy (acc @ [x]) (xs @ r) \<noteq> None" by simp
  with Cons.prems show ?case by (auto split: option.splits)
qed


lemma separator_sound:
  assumes "separator s = Some (sub, v)"
  shows "\<exists>sep r. s = sep @ r \<and> sep_ok sep sub \<and> filler_eq r = Some v"
proof (cases "case s of [] \<Rightarrow> None
            | c # cs \<Rightarrow> if is_space c then map_option (Pair (None :: string option)) (filler_eq cs) else None")
  case (Some p)
  with assms have "p = (sub, v)" by (simp add: separator_def)
  with Some obtain c cs where "s = [c] @ cs" "is_space c" "filler_eq cs = Some v" "sub = None"
    by (auto split: list.splits if_splits simp del: filler_eq.simps)
  then have "s = [c] @ cs \<and> sep_ok [c] sub \<and> filler_eq cs = Some v" by (simp add: sep_ok_def)
  then show ?thesis by blast
next
  case None
  with assms obtain r where s: "s = CHR ''_'' # CHR ''_'' # r"
    and r: "(case subcfg_greedy [] r of Some (sub, v) \<Rightarrow> Some (Some sub, v)
             | None \<Rightarrow> map_option (Pair None) (filler_eq r)) = Some (sub, v)"
    unfolding separator_def
    by (simp split: list.splits if_splits del: filler_eq.simps)
  show ?thesis
  proof (cases "subcfg_greedy [] r")
    case None
    with r have "filler_eq r = Some v" "sub = None" by auto
    with s have "s = ''__'' @ r \<and> sep_ok ''__'' sub \<and> filler_eq r = Some v" by (simp add: sep_ok_def)
    then show ?thesis by blast
  next
    case (Some p)
    with r have p: "subcfg_greedy [] r = Some (the sub, v)" and "sub \<noteq> None" by (auto split: prod.splits)
    from subcfg_greedy_sound [OF p] obtain w r' where
      "r = w @ r'" "the sub = w" "list_all is_word w" "w \<noteq> []" "filler_eq r' = Some v" by auto
    with s \<open>sub \<noteq> None\<close> have "s = (''__'' @ w) @ r' \<and> sep_ok (''__'' @ w) sub \<and> filler_eq r' = Some v"
      by (auto simp: sep_ok_def)
    then show ?thesis by blast
  qed
qed

lemma not_space_underscore: "\<not> is_space (CHR ''_'')"
  by (simp add: is_space_def code_def)

lemma separator_underscore:
  "separator (CHR ''_'' # CHR ''_'' # t) =
     (case subcfg_greedy [] t of
        Some (sub, v) \<Rightarrow> Some (Some sub, v)
      | None \<Rightarrow> map_option (Pair None) (filler_eq t))"
  unfolding separator_def by (simp add: not_space_underscore)

lemma separator_space:
  "is_space c \<Longrightarrow> filler_eq t = Some v \<Longrightarrow> separator (c # t) = Some (None, v)"
  unfolding separator_def by simp

lemma separator_complete:
  assumes "sep_ok sep sub" and "filler_eq r \<noteq> None"
  shows "separator (sep @ r) \<noteq> None"
proof -
  from assms(2) obtain v where v: "filler_eq r = Some v" by blast
  from assms(1) consider (sp) c where "sep = [c]" "is_space c"
    | (us) w where "sep = CHR ''_'' # CHR ''_'' # w" "list_all is_word w"
    unfolding sep_ok_def by fastforce
  then show ?thesis
  proof cases
    case sp
    with v show ?thesis by (simp add: separator_space)
  next
    case us
    show ?thesis
    proof (cases "subcfg_greedy [] (w @ r)")
      case (Some p)
      with us show ?thesis by (cases p) (simp add: separator_underscore)
    next
      case None
      have "w = []"
      proof (rule ccontr)
        assume "w \<noteq> []"
        with us assms(2) have "subcfg_greedy [] (w @ r) \<noteq> None"
          by (intro subcfg_greedy_complete) simp_all
        with None show False by simp
      qed
      with us v None show ?thesis by (simp add: separator_underscore)
    qed
  qed
qed

lemma gen_lazy_sound:
  "gen_lazy acc s = Some (g, sub, v) \<Longrightarrow>
   \<exists>w r. s = w @ r \<and> g = acc @ w \<and> w \<noteq> [] \<and> list_all is_word w \<and> separator r = Some (sub, v)"
proof (induction s arbitrary: acc)
  case Nil
  then show ?case by simp
next
  case (Cons c cs)
  then have w: "is_word c" by (auto split: if_splits)
  show ?case
  proof (cases "separator cs")
    case None
    with Cons.prems w have "gen_lazy (acc @ [c]) cs = Some (g, sub, v)" by simp
    from Cons.IH [OF this] obtain x r where "cs = x @ r" "g = (acc @ [c]) @ x" "list_all is_word x"
       "separator r = Some (sub, v)" by blast
    with w have "c # cs = (c # x) @ r \<and> g = acc @ (c # x) \<and> c # x \<noteq> [] \<and> list_all is_word (c # x)
       \<and> separator r = Some (sub, v)" by simp
    then show ?thesis by blast
  next
    case (Some p)
    with Cons.prems w have "c # cs = [c] @ cs \<and> g = acc @ [c] \<and> [c] \<noteq> [] \<and> list_all is_word [c]
       \<and> separator cs = Some (sub, v)" by (auto split: prod.splits)
    then show ?thesis by blast
  qed
qed

lemma gen_lazy_complete:
  "list_all is_word w \<Longrightarrow> w \<noteq> [] \<Longrightarrow> separator r \<noteq> None \<Longrightarrow>
   \<exists>g sub v. gen_lazy acc (w @ r) = Some (g, sub, v) \<and> length g \<le> length acc + length w"
proof (induction w arbitrary: acc)
  case Nil
  then show ?case by simp
next
  case (Cons x xs)
  show ?case
  proof (cases "separator (xs @ r)")
    case (Some p)
    with Cons.prems show ?thesis by (cases p) auto
  next
    case None
    with Cons.prems have "xs \<noteq> []" by auto
    with Cons.prems Cons.IH [of "acc @ [x]"]
    obtain g sub v where "gen_lazy (acc @ [x]) (xs @ r) = Some (g, sub, v)"
      "length g \<le> length (acc @ [x]) + length xs" by auto
    with None Cons.prems show ?thesis by auto
  qed
qed

lemma startswith_split: "startswith s p \<Longrightarrow> s = p @ drop (length p) s"
  by (metis append_take_drop_id startswith_def)

lemma re_match_cfg_sound:
  assumes "re_match_cfg l = Some (g, sub, v)"
  shows "cfg_line l g sub v"
proof -
  from assms have p: "startswith l ''CFG__''" and m: "gen_lazy [] (drop 5 l) = Some (g, sub, v)"
    by (auto simp: re_match_cfg_def split: if_splits)
  from gen_lazy_sound [OF m] obtain r0 where r0: "drop 5 l = g @ r0" "g \<noteq> []" "list_all is_word g"
    "separator r0 = Some (sub, v)" by auto
  from separator_sound [OF r0(4)] obtain sep r1 where r1: "r0 = sep @ r1" "sep_ok sep sub"
    "filler_eq r1 = Some v" by blast
  from filler_eq_sound [OF r1(3)] obtain f r where r: "r1 = f @ CHR ''='' # r" "newline \<notin> set f"
    "after_eq r = Some v" by blast
  from r(3) have v: "v = strip r" "newline \<notin> set v"
    by (auto simp: after_eq_eq split: if_splits)
  from p have t: "take 5 l = ''CFG__''" by (simp add: startswith_def eval_nat_numeral)
  have "take 5 l @ drop 5 l = l" by (rule append_take_drop_id)
  then have e: "''CFG__'' @ drop 5 l = l" by (simp only: t)
  have d: "drop 5 l = g @ sep @ f @ ''='' @ r"
    by (simp only: r0(1) r1(1) r(1) append.simps)
  have "''CFG__'' @ g @ sep @ f @ ''='' @ r = l"
    using e by (simp only: d)
  then have "l = ''CFG__'' @ g @ sep @ f @ ''='' @ r" by (rule sym)
  with r0(2,3) r1(2) r(2) v show ?thesis unfolding cfg_line_def by blast
qed

lemma re_match_cfg_complete:
  assumes "cfg_line l g sub v"
  shows "\<exists>g' sub' v'. re_match_cfg l = Some (g', sub', v') \<and> length g' \<le> length g"
proof -
  from assms obtain sep fill r where l: "l = ''CFG__'' @ g @ sep @ fill @ ''='' @ r"
    and g: "g \<noteq> []" "list_all is_word g" and s: "sep_ok sep sub" and f: "newline \<notin> set fill"
    and v: "v = strip r" "newline \<notin> set v"
    unfolding cfg_line_def by blast
  from v have "after_eq r \<noteq> None" by (simp add: after_eq_eq)
  with f have "filler_eq (fill @ CHR ''='' # r) \<noteq> None" by (rule filler_eq_complete)
  with s have "separator (sep @ fill @ CHR ''='' # r) \<noteq> None" by (rule separator_complete)
  with g obtain g' sub' v' where "gen_lazy [] (g @ sep @ fill @ CHR ''='' # r) = Some (g', sub', v')"
    "length g' \<le> length g"
    using gen_lazy_complete [of g "sep @ fill @ CHR ''='' # r" "[]"] by auto
  with l show ?thesis by (simp add: re_match_cfg_def startswith_def)
qed

lemma from_makefile_Some:
  "from_makefile l = Some c \<longleftrightarrow>
   (\<exists>g sub v. re_match_cfg l = Some (g, sub, v) \<and>
      c = \<lparr>gen = g, subcfg = or_empty sub, val = v, orig = Some l\<rparr>)"
  by (auto simp: from_makefile_def mkBuildConfig_def split: option.splits)




lemma not_word_eq: "\<not> is_word (CHR ''='')"
  by (simp add: is_word_def code_def)

lemma not_word_newline: "\<not> is_word newline"
  by (simp add: is_word_def code_def newline_def)

lemma after_eq_None: "after_eq r = None \<longleftrightarrow> newline \<in> set (strip r)"
  by (simp add: after_eq_eq)

lemma filler_eq_first:
  "filler_eq s = Some v \<Longrightarrow>
   \<exists>f r. s = f @ CHR ''='' # r \<and> newline \<notin> set f \<and> after_eq r = Some v \<and>
     (\<forall>f' r'. s = f' @ CHR ''='' # r' \<and> length f' < length f \<longrightarrow> after_eq r' = None)"
proof (induction s)
  case Nil
  then show ?case by simp
next
  case (Cons c cs)
  show ?case
  proof (cases "c = CHR ''='' \<and> after_eq cs = Some v")
    case True
    then have "c # cs = [] @ CHR ''='' # cs \<and> newline \<notin> set [] \<and> after_eq cs = Some v \<and>
      (\<forall>f' r'. c # cs = f' @ CHR ''='' # r' \<and> length f' < length ([] :: string) \<longrightarrow> after_eq r' = None)"
      by simp
    then show ?thesis by blast
  next
    case False
    with Cons.prems have a: "c \<noteq> newline" and b: "filler_eq cs = Some v"
      and n: "c = CHR ''='' \<Longrightarrow> after_eq cs = None"
      by (auto split: if_splits option.splits)
    from Cons.IH [OF b] obtain f r where f: "cs = f @ CHR ''='' # r" "newline \<notin> set f"
      "after_eq r = Some v"
      "\<forall>f' r'. cs = f' @ CHR ''='' # r' \<and> length f' < length f \<longrightarrow> after_eq r' = None"
      by blast
    have "after_eq r' = None" if "c # cs = f' @ CHR ''='' # r'" "length f' < length (c # f)" for f' r'
    proof (cases f')
      case Nil
      with that(1) have "c = CHR ''=''" "r' = cs" by simp_all
      with n show ?thesis by simp
    next
      case (Cons x f'')
      with that have "cs = f'' @ CHR ''='' # r'" "length f'' < length f" by simp_all
      with f(4) show ?thesis by blast
    qed
    with a f(1-3) have "c # cs = (c # f) @ CHR ''='' # r \<and> newline \<notin> set (c # f) \<and>
      after_eq r = Some v \<and>
      (\<forall>f' r'. c # cs = f' @ CHR ''='' # r' \<and> length f' < length (c # f) \<longrightarrow> after_eq r' = None)"
      by auto
    then show ?thesis by blast
  qed
qed

lemma filler_eq_word:
  assumes "is_word c" and "filler_eq (c # cs) = Some v"
  shows "filler_eq cs = Some v"
proof -
  from assms(1) have "c \<noteq> CHR ''=''" "c \<noteq> newline"
    using not_word_eq not_word_newline by auto
  with assms(2) show ?thesis by simp
qed

lemma subcfg_greedy_longest:
  "subcfg_greedy acc s = Some (sub, v) \<Longrightarrow>
   \<exists>w r. s = w @ r \<and> sub = acc @ w \<and> list_all is_word w \<and> sub \<noteq> [] \<and>
     filler_eq r = Some v \<and> r \<noteq> [] \<and> \<not> is_word (hd r)"
proof (induction s arbitrary: acc)
  case Nil
  then show ?case by (auto split: if_splits)
next
  case (Cons c cs)
  show ?case
  proof (cases "is_word c \<and> subcfg_greedy (acc @ [c]) cs = Some (sub, v)")
    case True
    then obtain w r where "cs = w @ r" "sub = (acc @ [c]) @ w" "list_all is_word w" "sub \<noteq> []"
        "filler_eq r = Some v" "r \<noteq> []" "\<not> is_word (hd r)"
      using Cons.IH by blast
    with True have "c # cs = (c # w) @ r \<and> sub = acc @ (c # w) \<and> list_all is_word (c # w) \<and> sub \<noteq> []
        \<and> filler_eq r = Some v \<and> r \<noteq> [] \<and> \<not> is_word (hd r)" by simp
    then show ?thesis by blast
  next
    case False
    with Cons.prems have f: "acc \<noteq> []" "filler_eq (c # cs) = Some v" "sub = acc"
      and n: "is_word c \<Longrightarrow> subcfg_greedy (acc @ [c]) cs = None"
      by (auto split: if_splits option.splits simp del: filler_eq.simps)
    have "\<not> is_word c"
    proof
      assume w: "is_word c"
      from filler_eq_word [OF w f(2)] have "filler_eq cs \<noteq> None" by simp
      then have "subcfg_greedy (acc @ [c]) ([] @ cs) \<noteq> None"
        by (intro subcfg_greedy_complete) simp_all
      with n [OF w] show False by simp
    qed
    with f have "c # cs = [] @ (c # cs) \<and> sub = acc @ [] \<and> list_all is_word [] \<and> sub \<noteq> []
        \<and> filler_eq (c # cs) = Some v \<and> c # cs \<noteq> [] \<and> \<not> is_word (hd (c # cs))" by simp
    then show ?thesis by blast
  qed
qed

lemma subcfg_greedy_None_word:
  assumes "subcfg_greedy [] r = None" and "filler_eq r = Some v"
  shows "r \<noteq> [] \<and> \<not> is_word (hd r)"
proof (cases r)
  case Nil
  with assms(2) show ?thesis by simp
next
  case (Cons c cs)
  have "\<not> is_word c"
  proof
    assume w: "is_word c"
    from assms(2) have "filler_eq (c # cs) = Some v" unfolding Cons .
    from filler_eq_word [OF w this] have "filler_eq cs \<noteq> None" by simp
    then have "subcfg_greedy ([] @ [c]) ([] @ cs) \<noteq> None"
      by (intro subcfg_greedy_complete) simp_all
    with w assms(1) Cons show False by (simp split: option.splits)
  qed
  with Cons show ?thesis by simp
qed

lemma separator_first:
  assumes "separator s = Some (sub, v)"
  shows "\<exists>sep r. s = sep @ r \<and> sep_ok sep sub \<and> filler_eq r = Some v \<and>
    (is_space (hd sep) \<or> (r \<noteq> [] \<and> \<not> is_word (hd r)))"
proof (cases "case s of [] \<Rightarrow> None
            | c # cs \<Rightarrow> if is_space c then map_option (Pair (None :: string option)) (filler_eq cs) else None")
  case (Some p)
  with assms have "p = (sub, v)" by (simp add: separator_def)
  with Some obtain c cs where "s = [c] @ cs" "is_space c" "filler_eq cs = Some v" "sub = None"
    by (auto split: list.splits if_splits simp del: filler_eq.simps)
  then have "s = [c] @ cs \<and> sep_ok [c] sub \<and> filler_eq cs = Some v \<and>
      (is_space (hd [c]) \<or> (cs \<noteq> [] \<and> \<not> is_word (hd cs)))" by (simp add: sep_ok_def)
  then show ?thesis by blast
next
  case None
  with assms obtain r where s: "s = CHR ''_'' # CHR ''_'' # r"
    and r: "(case subcfg_greedy [] r of Some (sub, v) \<Rightarrow> Some (Some sub, v)
             | None \<Rightarrow> map_option (Pair None) (filler_eq r)) = Some (sub, v)"
    unfolding separator_def
    by (simp split: list.splits if_splits del: filler_eq.simps)
  show ?thesis
  proof (cases "subcfg_greedy [] r")
    case None
    with r have f: "filler_eq r = Some v" "sub = None" by auto
    from subcfg_greedy_None_word [OF None f(1)] have "r \<noteq> [] \<and> \<not> is_word (hd r)" .
    with s f have "s = ''__'' @ r \<and> sep_ok ''__'' sub \<and> filler_eq r = Some v \<and>
      (is_space (hd ''__'') \<or> (r \<noteq> [] \<and> \<not> is_word (hd r)))" by (simp add: sep_ok_def)
    then show ?thesis by blast
  next
    case (Some p)
    with r have p: "subcfg_greedy [] r = Some (the sub, v)" and "sub \<noteq> None" by (auto split: prod.splits)
    from subcfg_greedy_longest [OF p] obtain w r' where
      "r = w @ r'" "the sub = w" "list_all is_word w" "w \<noteq> []" "filler_eq r' = Some v"
      "r' \<noteq> []" "\<not> is_word (hd r')" by auto
    with s \<open>sub \<noteq> None\<close> have "s = (''__'' @ w) @ r' \<and> sep_ok (''__'' @ w) sub \<and> filler_eq r' = Some v \<and>
      (is_space (hd (''__'' @ w)) \<or> (r' \<noteq> [] \<and> \<not> is_word (hd r')))"
      by (auto simp: sep_ok_def)
    then show ?thesis by blast
  qed
qed

lemma cfg_match_line: "cfg_match l g sub v \<Longrightarrow> cfg_line l g sub v"
  unfolding cfg_match_def cfg_line_def by blast

lemma re_match_cfg_first:
  assumes "re_match_cfg l = Some (g, sub, v)"
  shows "cfg_match l g sub v"
proof -
  from assms have p: "startswith l ''CFG__''" and m: "gen_lazy [] (drop 5 l) = Some (g, sub, v)"
    by (auto simp: re_match_cfg_def split: if_splits)
  from gen_lazy_sound [OF m] obtain r0 where r0: "drop 5 l = g @ r0" "g \<noteq> []" "list_all is_word g"
    "separator r0 = Some (sub, v)" by auto
  from separator_first [OF r0(4)] obtain sep r1 where r1: "r0 = sep @ r1" "sep_ok sep sub"
    "filler_eq r1 = Some v" "is_space (hd sep) \<or> (r1 \<noteq> [] \<and> \<not> is_word (hd r1))" by blast
  from filler_eq_first [OF r1(3)] obtain f r where r: "r1 = f @ CHR ''='' # r" "newline \<notin> set f"
    "after_eq r = Some v"
    "\<forall>f' r'. r1 = f' @ CHR ''='' # r' \<and> length f' < length f \<longrightarrow> after_eq r' = None" by blast
  from r(3) have v: "v = strip r" "newline \<notin> set v"
    by (auto simp: after_eq_eq split: if_splits)
  from p have t: "take 5 l = ''CFG__''" by (simp add: startswith_def eval_nat_numeral)
  have "take 5 l @ drop 5 l = l" by (rule append_take_drop_id)
  then have e: "''CFG__'' @ drop 5 l = l" by (simp only: t)
  have d: "drop 5 l = g @ sep @ f @ ''='' @ r"
    by (simp only: r0(1) r1(1) r(1) append.simps)
  have "''CFG__'' @ g @ sep @ f @ ''='' @ r = l"
    using e by (simp only: d)
  then have 1: "l = ''CFG__'' @ g @ sep @ f @ ''='' @ r" by (rule sym)
  have 2: "\<forall>g' sub' v'. cfg_line l g' sub' v' \<longrightarrow> length g \<le> length g'"
  proof (intro allI impI)
    fix g' sub' v' assume "cfg_line l g' sub' v'"
    from re_match_cfg_complete [OF this] assms show "length g \<le> length g'" by auto
  qed
  have "hd r1 = hd (f @ ''='')" by (cases f) (simp_all add: r(1))
  with r1(4) have 3: "is_space (hd sep) \<or> \<not> is_word (hd (f @ ''=''))" by auto
  have 4: "\<forall>fill' r'. f @ ''='' @ r = fill' @ ''='' @ r' \<and> length fill' < length f \<longrightarrow>
           newline \<in> set (strip r')"
  proof (intro allI impI)
    fix fill' r' assume "f @ ''='' @ r = fill' @ ''='' @ r' \<and> length fill' < length f"
    with r(1) have "r1 = fill' @ CHR ''='' # r' \<and> length fill' < length f" by simp
    with r(4) have "after_eq r' = None" by blast
    then show "newline \<in> set (strip r')" by (simp add: after_eq_None)
  qed
  from 1 r0(2,3) r1(2) r(2) v 2 3 4 show ?thesis unfolding cfg_match_def by blast
qed

lemma takeWhile_word_run:
  "list_all P w \<Longrightarrow> \<not> P (hd x) \<Longrightarrow> x \<noteq> [] \<Longrightarrow> takeWhile P (w @ x) = w"
  by (cases x) (simp_all add: list_all_iff takeWhile_append2)

lemma sep_ok_cases:
  assumes "sep_ok sep sub"
  obtains (space) c where "sep = [c]" "is_space c" "sub = None"
    | (under) w where "sep = CHR ''_'' # CHR ''_'' # w" "list_all is_word w"
        "sub = (if w = [] then None else Some w)"
  using assms unfolding sep_ok_def by fastforce

lemma cfg_match_unique:
  assumes a: "cfg_match l g1 sub1 v1" and b: "cfg_match l g2 sub2 v2"
  shows "g1 = g2 \<and> sub1 = sub2 \<and> v1 = v2"
proof -
  from a obtain sep1 fill1 r1 where
    l1: "l = ''CFG__'' @ g1 @ sep1 @ fill1 @ ''='' @ r1" and s1: "sep_ok sep1 sub1"
    and v1: "v1 = strip r1" "newline \<notin> set v1"
    and m1: "\<forall>g' sub' v'. cfg_line l g' sub' v' \<longrightarrow> length g1 \<le> length g'"
    and w1: "is_space (hd sep1) \<or> \<not> is_word (hd (fill1 @ ''=''))"
    and f1: "\<forall>fill' r'. fill1 @ ''='' @ r1 = fill' @ ''='' @ r' \<and> length fill' < length fill1 \<longrightarrow>
           newline \<in> set (strip r')"
    unfolding cfg_match_def by blast
  from b obtain sep2 fill2 r2 where
    l2: "l = ''CFG__'' @ g2 @ sep2 @ fill2 @ ''='' @ r2" and s2: "sep_ok sep2 sub2"
    and v2: "v2 = strip r2" "newline \<notin> set v2"
    and m2: "\<forall>g' sub' v'. cfg_line l g' sub' v' \<longrightarrow> length g2 \<le> length g'"
    and w2: "is_space (hd sep2) \<or> \<not> is_word (hd (fill2 @ ''=''))"
    and f2: "\<forall>fill' r'. fill2 @ ''='' @ r2 = fill' @ ''='' @ r' \<and> length fill' < length fill2 \<longrightarrow>
           newline \<in> set (strip r')"
    unfolding cfg_match_def by blast
  from m1 cfg_match_line [OF b] m2 cfg_match_line [OF a] have len: "length g1 = length g2"
    by (meson le_antisym)
  from l1 l2 have "g1 @ (sep1 @ fill1 @ ''='' @ r1) = g2 @ (sep2 @ fill2 @ ''='' @ r2)" by simp
  with len have g: "g1 = g2" and t: "sep1 @ fill1 @ ''='' @ r1 = sep2 @ fill2 @ ''='' @ r2"
    by simp_all
  have us: "\<not> is_space (CHR ''_'')" by (rule not_space_underscore)
  have sep: "sep1 = sep2 \<and> sub1 = sub2"
  using s1
  proof (cases rule: sep_ok_cases)
    case (space c)
    note sp1 = this
    from s2 show ?thesis
    proof (cases rule: sep_ok_cases)
      case (space d)
      with sp1 t show ?thesis by simp
    next
      case (under w)
      with sp1 t us show ?thesis by auto
    qed
  next
    case (under w)
    note un1 = this
    from s2 show ?thesis
    proof (cases rule: sep_ok_cases)
      case (space d)
      with un1 t us show ?thesis by auto
    next
      case un2: (under w')
      from un1 w1 us have n1: "\<not> is_word (hd (fill1 @ ''='' @ r1))"
        by (cases fill1) auto
      from un2 w2 us have n2: "\<not> is_word (hd (fill2 @ ''='' @ r2))"
        by (cases fill2) auto
      from un1 un2 t have e: "w @ (fill1 @ ''='' @ r1) = w' @ (fill2 @ ''='' @ r2)" by simp
      have "takeWhile is_word (w @ (fill1 @ ''='' @ r1)) = w"
        using un1(2) n1 by (rule takeWhile_word_run) simp
      moreover have "takeWhile is_word (w' @ (fill2 @ ''='' @ r2)) = w'"
        using un2(2) n2 by (rule takeWhile_word_run) simp
      ultimately have "w = w'" using e by simp
      with un1 un2 show ?thesis by simp
    qed
  qed
  with t have u: "fill1 @ ''='' @ r1 = fill2 @ ''='' @ r2" by simp
  have "\<not> length fill1 < length fill2"
  proof
    assume "length fill1 < length fill2"
    with f2 u have "newline \<in> set (strip r1)" by metis
    with v1 show False by simp
  qed
  moreover have "\<not> length fill2 < length fill1"
  proof
    assume "length fill2 < length fill1"
    with f1 u have "newline \<in> set (strip r2)" by metis
    with v2 show False by simp
  qed
  ultimately have "length fill1 = length fill2" by simp
  with u have "r1 = r2" by simp
  with v1 v2 g sep show ?thesis by simp
qed

lemma strip_b: "strip '' b'' = ''b''"
  by (simp add: strip_def lstrip_def rstrip_def is_space_def code_def)

lemma cfg_line_greedy: "cfg_line ''CFG__foo__bar = a = b'' ''foo'' (Some ''bar'') ''b''"
proof -
  have "''CFG__foo__bar = a = b'' = ''CFG__'' @ ''foo'' @ ''__bar'' @ '' = a '' @ ''='' @ '' b'' \<and>
      ''foo'' \<noteq> [] \<and> list_all is_word ''foo'' \<and> sep_ok ''__bar'' (Some ''bar'') \<and>
      newline \<notin> set '' = a '' \<and> ''b'' = strip '' b'' \<and> newline \<notin> set ''b''"
    by (simp add: strip_b sep_ok_def is_word_def is_space_def code_def newline_def)
  then show ?thesis unfolding cfg_line_def by blast
qed


section \<open>The scan of the makefile\<close>


lemma not_space_C: "\<not> is_space (CHR ''C'')"
  by (simp add: is_space_def code_def)

lemma not_space_hash: "\<not> is_space (CHR ''#'')"
  by (simp add: is_space_def code_def)

lemma strip_nonspace_hd: "\<not> is_space c \<Longrightarrow> \<exists>t. strip (c # r) = c # t"
  by (simp add: strip_nonspace_Cons rstrip_Cons)

lemma startswith_Cons: "startswith s (c # p) \<Longrightarrow> \<exists>r. s = c # r"
  by (cases s) (auto simp: startswith_def)

lemma is_cfg_not_blank: "is_cfg l \<Longrightarrow> \<not> is_blank l"
proof -
  assume "is_cfg l"
  then have "startswith l ''CFG__''"
    by (auto simp: is_cfg_def from_makefile_def re_match_cfg_def split: if_splits)
  then obtain r where "l = CHR ''C'' # r" using startswith_Cons by blast
  with strip_nonspace_hd [OF not_space_C, of r] show ?thesis by (auto simp: is_blank_def)
qed

lemma is_header_comment: "is_header l \<Longrightarrow> is_comment l \<and> \<not> is_blank l"
proof -
  assume "is_header l"
  then obtain r where "l = CHR ''#'' # r" unfolding is_header_def using startswith_Cons by blast
  with strip_nonspace_hd [OF not_space_hash, of r] show ?thesis
    by (auto simp: is_blank_def is_comment_def startswith_def)
qed

lemma scan_lines_append:
  "scan_lines n i (xs @ ys) s =
     (case scan_lines n i xs s of Inl e \<Rightarrow> Inl e | Inr s' \<Rightarrow> scan_lines n (i + length xs) ys s')"
  by (induction xs arbitrary: i s) (auto split: sum.splits)

lemma from_makefile_gen:
  "from_makefile l = Some c \<Longrightarrow> orig c = Some l"
  by (auto simp: from_makefile_def mkBuildConfig_def split: option.splits)


lemma decls_append: "decls (xs @ ys) p = decls xs p @ decls ys p"
  by (simp add: decls_def)

lemma decls_single: "decls [c] p = (if pair_of c = p then [c] else [])"
  by (simp add: decls_def)

lemma decls_remove1: "decls (remove1 c xs) p = remove1 c (decls xs p)"
  by (simp add: decls_def filter_remove1)

lemma decls_pair: "c \<in> set (decls H p) \<Longrightarrow> pair_of c = p \<and> c \<in> set H"
  by (simp add: decls_def)

lemma last_decls: "decls H p \<noteq> [] \<Longrightarrow> pair_of (last (decls H p)) = p \<and> last (decls H p) \<in> set H"
  using decls_pair [of "last (decls H p)" H p] by simp

lemma map_of_keys: "map fst al = keys \<Longrightarrow> (map_of al g = None) = (g \<notin> set keys)"
  by (metis map_of_eq_None_iff set_map)

lemma table_inv_keys: "table_inv keys H s \<Longrightarrow> map fst (generator2configs s) = keys"
  by (simp add: table_inv_def)

lemma table_inv_valid:
  "table_inv keys H s \<Longrightarrow> g \<in> set keys \<Longrightarrow>
   decls (configurations s) (g, sub) =
     (if decls H (g, sub) = [] then [] else [last (decls H (g, sub))])"
  by (simp add: table_inv_def)

lemma table_inv_invalid:
  "table_inv keys H s \<Longrightarrow> g \<in> set keys \<Longrightarrow>
   decls (invalid_configurations s) (g, sub) = butlast (decls H (g, sub))"
  by (simp add: table_inv_def)

lemma table_inv_table:
  "table_inv keys H s \<Longrightarrow> g \<in> set keys \<Longrightarrow>
   claimed s g sub = (if decls H (g, sub) = [] then None else Some (last (decls H (g, sub))))"
  by (simp add: table_inv_def)

lemma table_inv_unknown:
  "table_inv keys H s \<Longrightarrow> g \<notin> set keys \<Longrightarrow>
   decls (configurations s) (g, sub) = [] \<and>
   decls (invalid_configurations s) (g, sub) = decls H (g, sub)"
  by (simp add: table_inv_def)

lemma table_inv_warnings:
  "table_inv keys H s \<Longrightarrow> d \<in> set (warnings s) \<Longrightarrow> \<exists>c\<in>set H. diag_line d = fst c + 1"
  by (simp add: table_inv_def)

lemma table_invI:
  assumes "map fst (generator2configs s) = keys"
    and "\<And>g sub. g \<in> set keys \<Longrightarrow> decls (configurations s) (g, sub) =
              (if decls H (g, sub) = [] then [] else [last (decls H (g, sub))])"
    and "\<And>g sub. g \<in> set keys \<Longrightarrow>
            decls (invalid_configurations s) (g, sub) = butlast (decls H (g, sub))"
    and "\<And>g sub. g \<in> set keys \<Longrightarrow> claimed s g sub =
                 (if decls H (g, sub) = [] then None else Some (last (decls H (g, sub))))"
    and "\<And>g sub. g \<notin> set keys \<Longrightarrow> decls (configurations s) (g, sub) = []"
    and "\<And>g sub. g \<notin> set keys \<Longrightarrow> decls (invalid_configurations s) (g, sub) = decls H (g, sub)"
    and "\<And>d. d \<in> set (warnings s) \<Longrightarrow> \<exists>c\<in>set H. diag_line d = fst c + 1"
  shows "table_inv keys H s"
  unfolding table_inv_def using assms by blast

lemma register_unknown:
  assumes inv: "table_inv keys H s" and i: "fst c = i"
    and u: "map_of (generator2configs s) (gen (snd c)) = None"
  shows "\<exists>s'. register i c s = Inr s' \<and> table_inv keys (H @ [c]) s' \<and> last_cfg s' = i \<and>
           cfg_start s' = cfg_start s \<and> cfg_end s' = cfg_end s \<and>
           after_comment s' = after_comment s \<and>
           saw_generator_comment s' = saw_generator_comment s"
proof -
  let ?s = "s\<lparr>warnings := warnings s @ [InvalidConfiguration (gen (snd c)) (i + 1)],
              invalid_configurations := invalid_configurations s @ [c],
              last_cfg := i\<rparr>"
  have r: "register i c s = Inr ?s" using u by (simp add: register_def)
  have k: "map fst (generator2configs s) = keys" using inv by (rule table_inv_keys)
  from map_of_keys [OF k, of "gen (snd c)"] u have nk: "gen (snd c) \<notin> set keys" by simp
  have p: "\<And>g sub. g \<in> set keys \<Longrightarrow> decls (H @ [c]) (g, sub) = decls H (g, sub)"
    using nk by (auto simp: decls_append decls_single pair_of_def)
  have "table_inv keys (H @ [c]) ?s"
  proof (rule table_invI)
    show "map fst (generator2configs ?s) = keys" using k by simp
  next
    fix d assume "d \<in> set (warnings ?s)"
    then have "d \<in> set (warnings s) \<or> d = InvalidConfiguration (gen (snd c)) (i + 1)" by auto
    then show "\<exists>x\<in>set (H @ [c]). diag_line d = fst x + 1"
    proof
      assume "d \<in> set (warnings s)"
      from table_inv_warnings [OF inv this] show ?thesis by auto
    next
      assume "d = InvalidConfiguration (gen (snd c)) (i + 1)"
      with i show ?thesis by simp
    qed
  next
    fix g sub assume "g \<in> set keys"
    with table_inv_valid [OF inv this, of sub] p [of g sub]
    show "decls (configurations ?s) (g, sub) =
        (if decls (H @ [c]) (g, sub) = [] then [] else [last (decls (H @ [c]) (g, sub))])"
      by simp
  next
    fix g sub assume g: "g \<in> set keys"
    with nk have "pair_of c \<noteq> (g, sub)" by (auto simp: pair_of_def)
    with table_inv_invalid [OF inv g, of sub] p [OF g, of sub]
    show "decls (invalid_configurations ?s) (g, sub) = butlast (decls (H @ [c]) (g, sub))"
      by (simp add: decls_append decls_single)
  next
    fix g sub assume g: "g \<in> set keys"
    with table_inv_table [OF inv g, of sub] p [OF g, of sub]
    show "claimed ?s g sub =
                 (if decls (H @ [c]) (g, sub) = [] then None else Some (last (decls (H @ [c]) (g, sub))))"
      by (simp add: claimed_def)
  next
    fix g sub assume "g \<notin> set keys"
    from table_inv_unknown [OF inv this, of sub]
    show "decls (configurations ?s) (g, sub) = []" by simp
  next
    fix g sub assume "g \<notin> set keys"
    from table_inv_unknown [OF inv this, of sub]
    show "decls (invalid_configurations ?s) (g, sub) = decls (H @ [c]) (g, sub)"
      by (simp add: decls_append)
  qed
  with r show ?thesis by (intro exI [of _ ?s]) simp
qed


lemma claimed_update:
  "map_of (generator2configs s) g0 = Some cfgs \<Longrightarrow>
   generator2configs s' = AList.update g0 (AList.update sub0 c cfgs) (generator2configs s) \<Longrightarrow>
   claimed s' g sub = (if g = g0 \<and> sub = sub0 then Some c else claimed s g sub)"
  by (auto simp: claimed_def update_conv')

lemma claimed_Some_key:
  "claimed s g sub = Some c \<Longrightarrow> g \<in> set (map fst (generator2configs s))"
  by (auto simp: claimed_def split: option.splits dest: map_of_SomeD intro: rev_image_eqI)

lemma known_step:
  assumes inv: "table_inv keys H s" and i: "fst c = i"
    and g0: "map_of (generator2configs s) (gen (snd c)) = Some cfgs"
    and v: "configurations s' =
        (if decls H (pair_of c) = [] then configurations s
         else remove1 (last (decls H (pair_of c))) (configurations s)) @ [c]"
    and iv: "invalid_configurations s' =
        (if decls H (pair_of c) = [] then invalid_configurations s
         else invalid_configurations s @ [last (decls H (pair_of c))])"
    and t: "generator2configs s' =
        AList.update (gen (snd c)) (AList.update (subcfg (snd c)) c cfgs) (generator2configs s)"
    and w: "set (warnings s') \<subseteq> set (warnings s) \<union> {OverridingConfiguration (gen (snd c)) (i + 1)}"
  shows "table_inv keys (H @ [c]) s'"
proof (rule table_invI)
  have k: "map fst (generator2configs s) = keys" using inv by (rule table_inv_keys)
  from map_of_keys [OF k, of "gen (snd c)"] g0 have kn: "gen (snd c) \<in> set keys" by simp
  let ?ds = "decls H (pair_of c)"
  have old: "?ds \<noteq> [] \<Longrightarrow> pair_of (last ?ds) = pair_of c" using last_decls by blast
  have vc: "decls (configurations s) (pair_of c) = (if ?ds = [] then [] else [last ?ds])"
    using table_inv_valid [OF inv kn, of "subcfg (snd c)"] by (simp add: pair_of_def)
  have ic: "decls (invalid_configurations s) (pair_of c) = butlast ?ds"
    using table_inv_invalid [OF inv kn, of "subcfg (snd c)"] by (simp add: pair_of_def)
  show "map fst (generator2configs s') = keys"
    using k kn by (simp add: t update_keys)
  {
    fix d assume "d \<in> set (warnings s')"
    with w have "d \<in> set (warnings s) \<or> d = OverridingConfiguration (gen (snd c)) (i + 1)" by auto
    then show "\<exists>x\<in>set (H @ [c]). diag_line d = fst x + 1"
    proof
      assume "d \<in> set (warnings s)"
      from table_inv_warnings [OF inv this] show ?thesis by auto
    next
      assume "d = OverridingConfiguration (gen (snd c)) (i + 1)"
      with i show ?thesis by simp
    qed
  }
  {
    fix g sub assume g: "g \<in> set keys"
    show "decls (configurations s') (g, sub) =
        (if decls (H @ [c]) (g, sub) = [] then [] else [last (decls (H @ [c]) (g, sub))])"
    proof (cases "pair_of c = (g, sub)")
      case True
      then have e: "(g, sub) = pair_of c" by simp
      show ?thesis unfolding e using vc
        by (simp add: v decls_append decls_single decls_remove1)
    next
      case False
      have "?ds \<noteq> [] \<Longrightarrow>
          decls (remove1 (last ?ds) (configurations s)) (g, sub) = decls (configurations s) (g, sub)"
      proof -
        assume "?ds \<noteq> []"
        with old False have "last ?ds \<notin> set (decls (configurations s) (g, sub))"
          by (auto simp: decls_def)
        then show ?thesis by (simp add: decls_remove1 remove1_idem)
      qed
      with False table_inv_valid [OF inv g, of sub] show ?thesis
        by (simp add: v decls_append decls_single)
    qed
  }
  {
    fix g sub assume g: "g \<in> set keys"
    show "decls (invalid_configurations s') (g, sub) = butlast (decls (H @ [c]) (g, sub))"
    proof (cases "pair_of c = (g, sub)")
      case True
      then have e: "(g, sub) = pair_of c" by simp
      show ?thesis unfolding e using ic old
        by (simp add: iv decls_append decls_single butlast_append)
    next
      case False
      with old have "?ds \<noteq> [] \<Longrightarrow> pair_of (last ?ds) \<noteq> (g, sub)" by simp
      with False table_inv_invalid [OF inv g, of sub] show ?thesis
        by (simp add: iv decls_append decls_single)
    qed
  }
  {
    fix g sub assume g: "g \<in> set keys"
    show "claimed s' g sub =
        (if decls (H @ [c]) (g, sub) = [] then None else Some (last (decls (H @ [c]) (g, sub))))"
    proof (cases "pair_of c = (g, sub)")
      case True
      then have "g = gen (snd c) \<and> sub = subcfg (snd c)" by (auto simp: pair_of_def)
      with True show ?thesis
        by (simp add: claimed_update [OF g0 t] decls_append decls_single)
    next
      case False
      then have n: "\<not> (g = gen (snd c) \<and> sub = subcfg (snd c))" by (auto simp: pair_of_def)
      have "claimed s' g sub = claimed s g sub"
        using n by (simp only: claimed_update [OF g0 t] if_False)
      with False table_inv_table [OF inv g, of sub] show ?thesis
        by (simp add: decls_append decls_single)
    qed
  }
  {
    fix g sub assume g: "g \<notin> set keys"
    with kn have ne: "pair_of c \<noteq> (g, sub)" by (auto simp: pair_of_def)
    from table_inv_unknown [OF inv g, of sub]
    have u: "decls (configurations s) (g, sub) = []"
      "decls (invalid_configurations s) (g, sub) = decls H (g, sub)" by simp_all
    from u(1) ne show "decls (configurations s') (g, sub) = []"
      by (simp add: v decls_append decls_single decls_remove1)
    from old ne have "?ds \<noteq> [] \<Longrightarrow> pair_of (last ?ds) \<noteq> (g, sub)" by simp
    with u(2) ne show "decls (invalid_configurations s') (g, sub) = decls (H @ [c]) (g, sub)"
      by (simp add: iv decls_append decls_single)
  }
qed


lemma register_known:
  assumes inv: "table_inv keys H s" and i: "fst c = i"
    and g0: "map_of (generator2configs s) (gen (snd c)) = Some cfgs"
  shows "\<exists>s'. register i c s = Inr s' \<and> table_inv keys (H @ [c]) s' \<and> last_cfg s' = i \<and>
           cfg_start s' = cfg_start s \<and> cfg_end s' = cfg_end s \<and>
           after_comment s' = after_comment s \<and>
           saw_generator_comment s' = saw_generator_comment s"
proof -
  have k: "map fst (generator2configs s) = keys" using inv by (rule table_inv_keys)
  from map_of_keys [OF k, of "gen (snd c)"] g0 have kn: "gen (snd c) \<in> set keys" by simp
  let ?ds = "decls H (pair_of c)"
  have cl: "map_of cfgs (subcfg (snd c)) = (if ?ds = [] then None else Some (last ?ds))"
    using table_inv_table [OF inv kn, of "subcfg (snd c)"] g0
    by (simp add: claimed_def pair_of_def)
  have vc: "decls (configurations s) (pair_of c) = (if ?ds = [] then [] else [last ?ds])"
    using table_inv_valid [OF inv kn, of "subcfg (snd c)"] by (simp add: pair_of_def)
  show ?thesis
  proof (cases "?ds = []")
    case True
    let ?s = "s\<lparr>generator2configs :=
                  AList.update (gen (snd c)) (AList.update (subcfg (snd c)) c cfgs)
                    (generator2configs s),
                configurations := configurations s @ [c], last_cfg := i\<rparr>"
    from True cl g0 have r: "register i c s = Inr ?s" by (simp add: register_def)
    have "table_inv keys (H @ [c]) ?s"
      using inv i g0 by (rule known_step) (auto simp: True)
    with r show ?thesis by (intro exI [of _ ?s]) simp
  next
    case False
    let ?old = "last ?ds"
    let ?s = "s\<lparr>warnings := warnings s @ [OverridingConfiguration (gen (snd c)) (i + 1)],
                configurations := remove1 ?old (configurations s) @ [c],
                invalid_configurations := invalid_configurations s @ [?old],
                generator2configs :=
                  AList.update (gen (snd c)) (AList.update (subcfg (snd c)) c cfgs)
                    (generator2configs s),
                last_cfg := i\<rparr>"
    from False vc have "?old \<in> set (decls (configurations s) (pair_of c))" by simp
    then have "?old \<in> set (configurations s)" by (simp add: decls_def)
    with False cl g0 have r: "register i c s = Inr ?s" by (simp add: register_def)
    have "table_inv keys (H @ [c]) ?s"
      using inv i g0 by (rule known_step) (auto simp: False)
    with r show ?thesis by (intro exI [of _ ?s]) simp
  qed
qed

lemma register_inv:
  assumes "table_inv keys H s" and "fst c = i"
  shows "\<exists>s'. register i c s = Inr s' \<and> table_inv keys (H @ [c]) s' \<and> last_cfg s' = i \<and>
           cfg_start s' = cfg_start s \<and> cfg_end s' = cfg_end s \<and>
           after_comment s' = after_comment s \<and>
           saw_generator_comment s' = saw_generator_comment s"
proof (cases "map_of (generator2configs s) (gen (snd c))")
  case None
  with assms show ?thesis by (rule register_unknown)
next
  case (Some cfgs)
  with assms show ?thesis by (rule register_known)
qed


lemma processed_Suc:
  "processed L (Suc k) = processed L k @
     (if finalised L k then [] else (case from_makefile (L ! k) of None \<Rightarrow> [] | Some c \<Rightarrow> [(k, c)]))"
  by (simp add: processed_def map_filter_def split: option.splits)

lemma finalised_Suc:
  "finalised L (Suc k) \<longleftrightarrow>
     finalised L k \<or> ((\<exists>a<k. is_cfg (L ! a)) \<and> \<not> is_blank (L ! k) \<and> \<not> is_cfg (L ! k))"
  by (auto simp: finalised_def lessThan_Suc)

lemma finalised_cfg_before: "finalised L k \<Longrightarrow> \<exists>a<k. is_cfg (L ! a)"
  by (auto simp: finalised_def intro: less_trans)

lemma ex_less_Suc: "(\<exists>a<Suc k. P a) \<longleftrightarrow> (\<exists>a<k. P a) \<or> P k"
  by (auto simp: less_Suc_eq)

lemma table_inv_frame:
  "configurations s' = configurations s \<Longrightarrow>
   invalid_configurations s' = invalid_configurations s \<Longrightarrow>
   generator2configs s' = generator2configs s \<Longrightarrow>
   warnings s' = warnings s \<Longrightarrow>
   table_inv keys H s' = table_inv keys H s"
  by (simp add: table_inv_def claimed_def)

lemma after_comment_step:
  assumes k: "k < length L"
    and saw: "saw \<longleftrightarrow> (\<exists>h<k. is_header (L ! h))"
    and a: "after_comment_inv L k a"
  shows "after_comment_inv L (Suc k)
     (if is_blank (L ! k) then (if saw \<and> a = length L then k else a)
      else (if (saw \<or> is_header (L ! k)) \<and> a = length L \<and> \<not> is_comment (L ! k) then k else a))"
proof -
  have hc: "is_header (L ! k) \<Longrightarrow> is_comment (L ! k) \<and> \<not> is_blank (L ! k)"
    by (rule is_header_comment)
  have s: "sets_after_comment L k \<longleftrightarrow> saw \<and> (is_blank (L ! k) \<or> \<not> is_comment (L ! k))"
    using saw by (auto simp: sets_after_comment_def)
  from a consider (unset) "a = length L" "\<forall>j<k. \<not> sets_after_comment L j"
    | (set) "a < k" "sets_after_comment L a" "\<forall>j<a. \<not> sets_after_comment L j"
    unfolding after_comment_inv_def by blast
  then show ?thesis
  proof cases
    case unset
    show ?thesis
    proof (cases "sets_after_comment L k")
      case True
      with unset s hc show ?thesis
        unfolding after_comment_inv_def by auto
    next
      case False
      with unset have "\<forall>j<Suc k. \<not> sets_after_comment L j" by (auto simp: less_Suc_eq)
      with unset False s hc show ?thesis
        unfolding after_comment_inv_def by auto
    qed
  next
    case set
    with k have "a \<noteq> length L" by simp
    with set show ?thesis unfolding after_comment_inv_def by auto
  qed
qed


lemma scan_invI:
  assumes "table_inv keys (processed L k) s"
    and "cfg_start s = length L \<or> cfg_start s < k"
    and "cfg_start s \<noteq> length L \<longleftrightarrow> (\<exists>a<k. is_cfg (L ! a))"
    and "cfg_start s \<noteq> length L \<Longrightarrow> is_cfg (L ! cfg_start s) \<and> (\<forall>a<cfg_start s. \<not> is_cfg (L ! a))"
    and "cfg_end s \<noteq> length L \<longleftrightarrow> finalised L k"
    and "cfg_start s \<noteq> length L \<Longrightarrow> last_cfg s < k"
    and "saw_generator_comment s \<longleftrightarrow> (\<exists>h<k. is_header (L ! h))"
    and "after_comment_inv L k (after_comment s)"
  shows "scan_inv keys L k s"
  unfolding scan_inv_def using assms by blast

lemma scan_inv_table: "scan_inv keys L k s \<Longrightarrow> table_inv keys (processed L k) s"
  by (simp add: scan_inv_def)

lemma scan_inv_start:
  "scan_inv keys L k s \<Longrightarrow>
   (cfg_start s = length L \<or> cfg_start s < k) \<and>
   (cfg_start s \<noteq> length L \<longleftrightarrow> (\<exists>a<k. is_cfg (L ! a))) \<and>
   (cfg_start s \<noteq> length L \<longrightarrow>
      is_cfg (L ! cfg_start s) \<and> (\<forall>a<cfg_start s. \<not> is_cfg (L ! a)))"
  by (simp add: scan_inv_def)

lemma scan_inv_end:
  "scan_inv keys L k s \<Longrightarrow>
   (cfg_end s \<noteq> length L \<longleftrightarrow> finalised L k) \<and> (cfg_start s \<noteq> length L \<longrightarrow> last_cfg s < k)"
  by (simp add: scan_inv_def)

lemma scan_inv_comment:
  "scan_inv keys L k s \<Longrightarrow>
   (saw_generator_comment s \<longleftrightarrow> (\<exists>h<k. is_header (L ! h))) \<and>
   after_comment_inv L k (after_comment s)"
  by (simp add: scan_inv_def)

lemma loop_body_blank:
  "is_blank l \<Longrightarrow>
   loop_body n i l s =
     Inr (if saw_generator_comment s \<and> after_comment s = n then s\<lparr>after_comment := i\<rparr> else s)"
  by (simp add: loop_body_def is_blank_def)

lemma loop_body_other:
  assumes "\<not> is_blank l" and "from_makefile l = None"
  shows "\<exists>s'. loop_body n i l s = Inr s' \<and>
      configurations s' = configurations s \<and>
      invalid_configurations s' = invalid_configurations s \<and>
      generator2configs s' = generator2configs s \<and>
      warnings s' = warnings s \<and>
      cfg_start s' = cfg_start s \<and>
      last_cfg s' = last_cfg s \<and>
      cfg_end s' = (if cfg_start s < n \<and> cfg_end s = n then last_cfg s + 1 else cfg_end s) \<and>
      saw_generator_comment s' = (saw_generator_comment s \<or> is_header l) \<and>
      after_comment s' =
        (if (saw_generator_comment s \<or> is_header l) \<and> after_comment s = n \<and> \<not> is_comment l
         then i else after_comment s)"
  using assms by (simp add: loop_body_def is_blank_def is_header_def is_comment_def Let_def)

lemma loop_body_ignored:
  assumes "\<not> is_blank l" and "from_makefile l = Some c" and "cfg_end s \<noteq> n"
  shows "\<exists>s'. loop_body n i l s = Inr s' \<and>
      configurations s' = configurations s \<and>
      invalid_configurations s' = invalid_configurations s \<and>
      generator2configs s' = generator2configs s \<and>
      warnings s' = warnings s \<and>
      cfg_start s' = (if cfg_start s = n then i else cfg_start s) \<and>
      last_cfg s' = last_cfg s \<and>
      cfg_end s' = cfg_end s \<and>
      saw_generator_comment s' = (saw_generator_comment s \<or> is_header l) \<and>
      after_comment s' =
        (if (saw_generator_comment s \<or> is_header l) \<and> after_comment s = n \<and> \<not> is_comment l
         then i else after_comment s)"
  using assms by (simp add: loop_body_def is_blank_def is_header_def is_comment_def Let_def)


lemma cfg_not_comment:
  assumes "from_makefile l = Some c"
  shows "\<not> is_header l \<and> \<not> is_comment l"
proof -
  from assms have "startswith l ''CFG__''"
    by (auto simp: from_makefile_def re_match_cfg_def split: if_splits)
  then obtain r where l: "l = CHR ''C'' # r" using startswith_Cons by blast
  from strip_nonspace_hd [OF not_space_C, of r] l obtain t where "strip l = CHR ''C'' # t" by auto
  with l show ?thesis by (auto simp: is_header_def is_comment_def startswith_def)
qed

lemma loop_body_cfg_open:
  assumes nb: "strip l \<noteq> []" and c: "from_makefile l = Some c" and e: "cfg_end s = n"
    and h: "\<not> startswith l ''# Configure generators''"
    and cm: "\<not> startswith (strip l) ''#''"
  shows "loop_body n i l s =
      register i (i, c)
        (if cfg_start (if saw_generator_comment s \<and> after_comment s = n
                       then s\<lparr>after_comment := i\<rparr> else s) = n
         then (if saw_generator_comment s \<and> after_comment s = n
               then s\<lparr>after_comment := i\<rparr> else s)\<lparr>cfg_start := i\<rparr>
         else (if saw_generator_comment s \<and> after_comment s = n
               then s\<lparr>after_comment := i\<rparr> else s))"
  using nb c e h cm
  by (cases "saw_generator_comment s"; cases "after_comment s = n"; cases "cfg_start s = n")
     (simp_all add: loop_body_def split: sum.splits)

lemma loop_body_registered:
  assumes nb: "\<not> is_blank l" and c: "from_makefile l = Some c" and e: "cfg_end s = n"
    and inv: "table_inv keys H s"
  shows "\<exists>s'. loop_body n i l s = Inr s' \<and>
      table_inv keys (H @ [(i, c)]) s' \<and>
      cfg_start s' = (if cfg_start s = n then i else cfg_start s) \<and>
      last_cfg s' = i \<and>
      cfg_end s' = n \<and>
      saw_generator_comment s' = saw_generator_comment s \<and>
      after_comment s' =
        (if saw_generator_comment s \<and> after_comment s = n then i else after_comment s)"
proof -
  from cfg_not_comment [OF c] have h: "\<not> startswith l ''# Configure generators''"
    and cm: "\<not> startswith (strip l) ''#''"
    by (simp_all add: is_header_def is_comment_def)
  define s2 where "s2 = (if saw_generator_comment s \<and> after_comment s = n
       then s\<lparr>after_comment := i\<rparr> else s)"
  define s3 where "s3 = (if cfg_start s2 = n then s2\<lparr>cfg_start := i\<rparr> else s2)"
  have f: "configurations s3 = configurations s" "invalid_configurations s3 = invalid_configurations s"
    "generator2configs s3 = generator2configs s" "warnings s3 = warnings s"
    "cfg_end s3 = n" "cfg_start s3 = (if cfg_start s = n then i else cfg_start s)"
    "saw_generator_comment s3 = saw_generator_comment s"
    "after_comment s3 =
        (if saw_generator_comment s \<and> after_comment s = n then i else after_comment s)"
    by (simp_all add: s3_def s2_def e)
  from nb have "strip l \<noteq> []" by (simp add: is_blank_def)
  then have b: "loop_body n i l s = register i (i, c) s3"
    unfolding s3_def s2_def using c e h cm by (rule loop_body_cfg_open)
  have "table_inv keys H s3" using f(1-4) inv by (rule table_inv_frame [THEN iffD2])
  from register_inv [OF this, of "(i, c)" i]
  obtain s4 where r: "register i (i, c) s3 = Inr s4" "table_inv keys (H @ [(i, c)]) s4"
    "last_cfg s4 = i" "cfg_start s4 = cfg_start s3" "cfg_end s4 = cfg_end s3"
    "after_comment s4 = after_comment s3" "saw_generator_comment s4 = saw_generator_comment s3"
    by auto
  from b r(1) have "loop_body n i l s = Inr s4" by simp
  with r f show ?thesis by (intro exI [of _ s4]) simp
qed


lemma scan_inv_SucI:
  assumes k: "k < length L" and inv: "scan_inv keys L k s"
    and table: "table_inv keys (processed L (Suc k)) s'"
    and start: "cfg_start s' = (if cfg_start s = length L \<and> is_cfg (L ! k) then k else cfg_start s)"
    and endp: "cfg_end s' \<noteq> length L \<longleftrightarrow> finalised L (Suc k)"
    and last: "last_cfg s' = (if is_cfg (L ! k) \<and> \<not> finalised L k then k else last_cfg s)"
    and saw: "saw_generator_comment s' = (saw_generator_comment s \<or> is_header (L ! k))"
    and ac: "after_comment s' =
      (if is_blank (L ! k)
       then (if saw_generator_comment s \<and> after_comment s = length L then k else after_comment s)
       else (if (saw_generator_comment s \<or> is_header (L ! k)) \<and> after_comment s = length L \<and>
                \<not> is_comment (L ! k) then k else after_comment s))"
  shows "scan_inv keys L (Suc k) s'"
proof (rule scan_invI)
  note st = scan_inv_start [OF inv]
  note en = scan_inv_end [OF inv]
  note cm = scan_inv_comment [OF inv]
  show "table_inv keys (processed L (Suc k)) s'" by (rule table)
  show "cfg_start s' = length L \<or> cfg_start s' < Suc k"
    using st by (auto simp: start)
  show "cfg_start s' \<noteq> length L \<longleftrightarrow> (\<exists>a<Suc k. is_cfg (L ! a))"
    using st k by (auto simp: start ex_less_Suc)
  show "is_cfg (L ! cfg_start s') \<and> (\<forall>a<cfg_start s'. \<not> is_cfg (L ! a))"
    if "cfg_start s' \<noteq> length L"
  proof (cases "cfg_start s = length L")
    case True
    with that have c: "is_cfg (L ! k)" "cfg_start s' = k" by (auto simp: start split: if_splits)
    from True st have "\<forall>a<k. \<not> is_cfg (L ! a)" by auto
    with c show ?thesis by simp
  next
    case False
    with st show ?thesis by (simp add: start)
  qed
  show "cfg_end s' \<noteq> length L \<longleftrightarrow> finalised L (Suc k)" by (rule endp)
  show "last_cfg s' < Suc k" if "cfg_start s' \<noteq> length L"
  proof (cases "is_cfg (L ! k) \<and> \<not> finalised L k")
    case True
    then show ?thesis by (simp add: last)
  next
    case False
    have "cfg_start s \<noteq> length L"
    proof
      assume e: "cfg_start s = length L"
      with that have c: "is_cfg (L ! k)" by (auto simp: start split: if_splits)
      from e st have "\<not> (\<exists>a<k. is_cfg (L ! a))" by auto
      with finalised_cfg_before [of L k] have "\<not> finalised L k" by blast
      with c False show False by simp
    qed
    with en have "last_cfg s < k" by simp
    with False show ?thesis by (simp add: last)
  qed
  show "saw_generator_comment s' \<longleftrightarrow> (\<exists>h<Suc k. is_header (L ! h))"
    using cm by (simp add: saw ex_less_Suc)
  from cm have "saw_generator_comment s \<longleftrightarrow> (\<exists>h<k. is_header (L ! h))"
    and "after_comment_inv L k (after_comment s)" by simp_all
  from after_comment_step [OF k this]
  show "after_comment_inv L (Suc k) (after_comment s')" by (simp only: ac)
qed


lemma scan_step:
  assumes k: "k < length L" and inv: "scan_inv keys L k s"
  shows "\<exists>s'. loop_body (length L) k (L ! k) s = Inr s' \<and> scan_inv keys L (Suc k) s'"
proof -
  note st = scan_inv_start [OF inv]
  note en = scan_inv_end [OF inv]
  note tb = scan_inv_table [OF inv]
  let ?l = "L ! k" and ?n = "length L"
  consider (blank) "is_blank ?l"
    | (other) "\<not> is_blank ?l" "from_makefile ?l = None"
    | (ignored) c where "\<not> is_blank ?l" "from_makefile ?l = Some c" "cfg_end s \<noteq> ?n"
    | (registered) c where "\<not> is_blank ?l" "from_makefile ?l = Some c" "cfg_end s = ?n"
    by (cases "from_makefile ?l") auto
  then show ?thesis
  proof cases
    case blank
    then have nc: "\<not> is_cfg ?l" using is_cfg_not_blank by blast
    then have fm: "from_makefile ?l = None" by (simp add: is_cfg_def)
    from blank have nh: "\<not> is_header ?l" using is_header_comment by blast
    let ?s = "if saw_generator_comment s \<and> after_comment s = ?n then s\<lparr>after_comment := k\<rparr> else s"
    have b: "loop_body ?n k ?l s = Inr ?s" using blank by (rule loop_body_blank)
    have p: "processed L (Suc k) = processed L k" by (simp add: processed_Suc fm)
    have "table_inv keys (processed L k) ?s = table_inv keys (processed L k) s"
      by (rule table_inv_frame) simp_all
    with tb have t: "table_inv keys (processed L (Suc k)) ?s" by (simp only: p)
    have "scan_inv keys L (Suc k) ?s"
      using k inv t
    proof (rule scan_inv_SucI)
      show "cfg_start ?s = (if cfg_start s = ?n \<and> is_cfg ?l then k else cfg_start s)"
        using nc by simp
      show "cfg_end ?s \<noteq> ?n \<longleftrightarrow> finalised L (Suc k)"
        using en blank by (simp add: finalised_Suc)
      show "last_cfg ?s = (if is_cfg ?l \<and> \<not> finalised L k then k else last_cfg s)"
        using nc by simp
      show "saw_generator_comment ?s = (saw_generator_comment s \<or> is_header ?l)"
        using nh by simp
      show "after_comment ?s =
        (if is_blank ?l
         then (if saw_generator_comment s \<and> after_comment s = ?n then k else after_comment s)
         else (if (saw_generator_comment s \<or> is_header ?l) \<and> after_comment s = ?n \<and>
                \<not> is_comment ?l then k else after_comment s))"
        using blank by simp
    qed
    with b show ?thesis by blast
  next
    case other
    then have nc: "\<not> is_cfg ?l" by (simp add: is_cfg_def)
    from loop_body_other [OF other, of ?n k s] obtain s' where b: "loop_body ?n k ?l s = Inr s'"
      and f: "configurations s' = configurations s"
        "invalid_configurations s' = invalid_configurations s"
        "generator2configs s' = generator2configs s"
        "warnings s' = warnings s"
      and g: "cfg_start s' = cfg_start s" "last_cfg s' = last_cfg s"
        "cfg_end s' = (if cfg_start s < ?n \<and> cfg_end s = ?n then last_cfg s + 1 else cfg_end s)"
        "saw_generator_comment s' = (saw_generator_comment s \<or> is_header ?l)"
        "after_comment s' =
          (if (saw_generator_comment s \<or> is_header ?l) \<and> after_comment s = ?n \<and> \<not> is_comment ?l
           then k else after_comment s)"
      by blast
    have p: "processed L (Suc k) = processed L k" by (simp add: processed_Suc other)
    have "table_inv keys (processed L k) s' = table_inv keys (processed L k) s"
      using f by (rule table_inv_frame)
    with tb have t: "table_inv keys (processed L (Suc k)) s'" by (simp only: p)
    have "scan_inv keys L (Suc k) s'"
      using k inv t
    proof (rule scan_inv_SucI)
      show "cfg_start s' = (if cfg_start s = ?n \<and> is_cfg ?l then k else cfg_start s)"
        using nc by (simp add: g)
      show "cfg_end s' \<noteq> ?n \<longleftrightarrow> finalised L (Suc k)"
      proof (cases "cfg_start s = ?n")
        case True
        with st have "\<not> (\<exists>a<k. is_cfg (L ! a))" by simp
        moreover from this finalised_cfg_before [of L k] have "\<not> finalised L k" by blast
        ultimately show ?thesis using en True by (simp add: g finalised_Suc)
      next
        case False
        with st k have lt: "cfg_start s < ?n" and ex: "\<exists>a<k. is_cfg (L ! a)" by auto
        from False en k have "last_cfg s + 1 \<noteq> ?n" by auto
        with lt ex en other nc show ?thesis by (auto simp: g finalised_Suc)
      qed
      show "last_cfg s' = (if is_cfg ?l \<and> \<not> finalised L k then k else last_cfg s)"
        using nc by (simp add: g)
      show "saw_generator_comment s' = (saw_generator_comment s \<or> is_header ?l)"
        by (simp add: g)
      show "after_comment s' =
        (if is_blank ?l
         then (if saw_generator_comment s \<and> after_comment s = ?n then k else after_comment s)
         else (if (saw_generator_comment s \<or> is_header ?l) \<and> after_comment s = ?n \<and>
                \<not> is_comment ?l then k else after_comment s))"
        using other by (simp add: g)
    qed
    with b show ?thesis by blast
  next
    case ignored
    then have ic: "is_cfg ?l" by (simp add: is_cfg_def)
    from ignored en have fin: "finalised L k" by simp
    from loop_body_ignored [OF ignored, of k] obtain s' where b: "loop_body ?n k ?l s = Inr s'"
      and f: "configurations s' = configurations s"
        "invalid_configurations s' = invalid_configurations s"
        "generator2configs s' = generator2configs s"
        "warnings s' = warnings s"
      and g: "cfg_start s' = (if cfg_start s = ?n then k else cfg_start s)" "last_cfg s' = last_cfg s"
        "cfg_end s' = cfg_end s"
        "saw_generator_comment s' = (saw_generator_comment s \<or> is_header ?l)"
        "after_comment s' =
          (if (saw_generator_comment s \<or> is_header ?l) \<and> after_comment s = ?n \<and> \<not> is_comment ?l
           then k else after_comment s)"
      by blast
    have p: "processed L (Suc k) = processed L k" by (simp add: processed_Suc fin)
    have "table_inv keys (processed L k) s' = table_inv keys (processed L k) s"
      using f by (rule table_inv_frame)
    with tb have t: "table_inv keys (processed L (Suc k)) s'" by (simp only: p)
    have "scan_inv keys L (Suc k) s'"
      using k inv t
    proof (rule scan_inv_SucI)
      show "cfg_start s' = (if cfg_start s = ?n \<and> is_cfg ?l then k else cfg_start s)"
        using ic by (simp add: g)
      show "cfg_end s' \<noteq> ?n \<longleftrightarrow> finalised L (Suc k)"
        using en ic by (simp add: g finalised_Suc)
      show "last_cfg s' = (if is_cfg ?l \<and> \<not> finalised L k then k else last_cfg s)"
        using fin by (simp add: g)
      show "saw_generator_comment s' = (saw_generator_comment s \<or> is_header ?l)"
        by (simp add: g)
      show "after_comment s' =
        (if is_blank ?l
         then (if saw_generator_comment s \<and> after_comment s = ?n then k else after_comment s)
         else (if (saw_generator_comment s \<or> is_header ?l) \<and> after_comment s = ?n \<and>
                \<not> is_comment ?l then k else after_comment s))"
        using ignored by (simp add: g)
    qed
    with b show ?thesis by blast
  next
    case registered
    then have ic: "is_cfg ?l" by (simp add: is_cfg_def)
    from registered en have fin: "\<not> finalised L k" by simp
    from cfg_not_comment [OF registered(2)] have nh: "\<not> is_header ?l" "\<not> is_comment ?l" by simp_all
    from loop_body_registered [OF registered tb, of k] obtain s' where
      b: "loop_body ?n k ?l s = Inr s'"
      and t0: "table_inv keys (processed L k @ [(k, c)]) s'"
      and g: "cfg_start s' = (if cfg_start s = ?n then k else cfg_start s)" "last_cfg s' = k"
        "cfg_end s' = ?n"
        "saw_generator_comment s' = saw_generator_comment s"
        "after_comment s' =
          (if saw_generator_comment s \<and> after_comment s = ?n then k else after_comment s)"
      by blast
    have p: "processed L (Suc k) = processed L k @ [(k, c)]"
      by (simp add: processed_Suc fin registered)
    from t0 have t: "table_inv keys (processed L (Suc k)) s'" by (simp only: p)
    have "scan_inv keys L (Suc k) s'"
      using k inv t
    proof (rule scan_inv_SucI)
      show "cfg_start s' = (if cfg_start s = ?n \<and> is_cfg ?l then k else cfg_start s)"
        using ic by (simp add: g)
      show "cfg_end s' \<noteq> ?n \<longleftrightarrow> finalised L (Suc k)"
        using fin ic by (simp add: g finalised_Suc)
      show "last_cfg s' = (if is_cfg ?l \<and> \<not> finalised L k then k else last_cfg s)"
        using fin ic by (simp add: g)
      show "saw_generator_comment s' = (saw_generator_comment s \<or> is_header ?l)"
        using nh by (simp add: g)
      show "after_comment s' =
        (if is_blank ?l
         then (if saw_generator_comment s \<and> after_comment s = ?n then k else after_comment s)
         else (if (saw_generator_comment s \<or> is_header ?l) \<and> after_comment s = ?n \<and>
                \<not> is_comment ?l then k else after_comment s))"
        using registered nh by (simp add: g)
    qed
    with b show ?thesis by blast
  qed
qed


lemma known_generators_values_aux:
  "(\<And>g c. map_of d g = Some c \<Longrightarrow> c = []) \<Longrightarrow>
   map_of (fold (\<lambda>p d. AList.update (generator_name p) [] d) paths d) g = Some c \<Longrightarrow> c = []"
proof (induction paths arbitrary: d)
  case Nil
  then show ?case by simp
next
  case (Cons p ps)
  have "\<And>g c. map_of (AList.update (generator_name p) [] d) g = Some c \<Longrightarrow> c = []"
    using Cons.prems(1) by (auto simp: update_conv' split: if_splits)
  from Cons.IH [OF this] Cons.prems(2) show ?case by simp
qed

lemma known_generators_values: "map_of (known_generators paths) g = Some c \<Longrightarrow> c = []"
  unfolding known_generators_def by (rule known_generators_values_aux [of "[]"]) simp_all

lemma known_generators_distinct_aux:
  "distinct (map fst d) \<Longrightarrow>
   distinct (map fst (fold (\<lambda>p d. AList.update (generator_name p) [] d) paths d))"
  by (induction paths arbitrary: d) (simp_all add: distinct_update)

lemma known_generators_distinct: "distinct (map fst (known_generators paths))"
  unfolding known_generators_def by (rule known_generators_distinct_aux) simp

lemma scan_inv_init:
  "scan_inv (map fst (known_generators paths)) L 0 (init_state (length L) paths)"
proof (rule scan_invI)
  show "table_inv (map fst (known_generators paths)) (processed L 0) (init_state (length L) paths)"
  proof (rule table_invI)
    fix g sub
    show "claimed (init_state (length L) paths) g sub =
       (if decls (processed L 0) (g, sub) = [] then None
        else Some (last (decls (processed L 0) (g, sub))))"
      using known_generators_values [of paths g]
      by (auto simp: claimed_def init_state_def processed_def map_filter_def decls_def
          split: option.splits)
  qed (simp_all add: init_state_def processed_def map_filter_def decls_def)
qed (simp_all add: init_state_def finalised_def after_comment_inv_def)

lemma scan_prefix:
  assumes "scan_inv keys L 0 s0"
  shows "k \<le> length L \<Longrightarrow>
    \<exists>s. scan_lines (length L) 0 (take k L) s0 = Inr s \<and> scan_inv keys L k s"
proof (induction k)
  case 0
  with assms show ?case by simp
next
  case (Suc k)
  then have k: "k < length L" by simp
  with Suc.IH obtain s where s: "scan_lines (length L) 0 (take k L) s0 = Inr s" "scan_inv keys L k s"
    by auto
  from scan_step [OF k s(2)] obtain s' where
    s': "loop_body (length L) k (L ! k) s = Inr s'" "scan_inv keys L (Suc k) s'" by blast
  from k have "take (Suc k) L = take k L @ [L ! k]" by (rule take_Suc_conv_app_nth)
  with s s' k have "scan_lines (length L) 0 (take (Suc k) L) s0 = Inr s'"
    by (simp add: scan_lines_append)
  with s' show ?case by blast
qed

lemma scan_all:
  "\<exists>s. scan_lines (length L) 0 L (init_state (length L) paths) = Inr s \<and>
       scan_inv (map fst (known_generators paths)) L (length L) s"
  using scan_prefix [OF scan_inv_init, of "length L" L paths] by simp


lemma pair_of_default:
  "pair_of (k, mkBuildConfig (Some g) (Some []) (Some []) None) = (g, [])"
  by (simp add: pair_of_def mkBuildConfig_def)

lemma infer_defaults_frame:
  "invalid_configurations (infer_defaults k gs s) = invalid_configurations s \<and>
   warnings (infer_defaults k gs s) = warnings s \<and>
   after_comment (infer_defaults k gs s) = after_comment s \<and>
   cfg_start (infer_defaults k gs s) = cfg_start s \<and>
   cfg_end (infer_defaults k gs s) = cfg_end s"
  by (induction gs arbitrary: k s) (simp_all split: option.splits list.splits)

lemma infer_defaults_configurations:
  "distinct gs \<Longrightarrow>
   \<exists>ds. configurations (infer_defaults k gs s) = configurations s @ ds \<and>
     map pair_of ds = map (\<lambda>g. (g, [])) (filter (\<lambda>g. map_of (generator2configs s) g = Some []) gs) \<and>
     (\<forall>c\<in>set ds. k \<le> fst c)"
proof (induction gs arbitrary: k s)
  case Nil
  then show ?case by simp
next
  case (Cons g gs)
  then have d: "distinct gs" and ng: "g \<notin> set gs" by simp_all
  show ?case
  proof (cases "map_of (generator2configs s) g = Some []")
    case True
    let ?new = "(k + 1, mkBuildConfig (Some g) (Some []) (Some []) None)"
    let ?s1 = "s\<lparr>generator2configs :=
                  AList.update g
                    [([], (k, mkBuildConfig (Some g) (Some []) (Some []) None))]
                    (generator2configs s),
               configurations := configurations s @ [?new]\<rparr>"
    have e: "infer_defaults k (g # gs) s = infer_defaults (k + 2) gs ?s1"
      using True by simp
    have same: "filter (\<lambda>x. map_of (AList.update g
            [([], (k, mkBuildConfig (Some g) (Some []) (Some []) None))]
            (generator2configs s)) x = Some []) gs =
        filter (\<lambda>x. map_of (generator2configs s) x = Some []) gs"
      using ng by (intro filter_cong) (auto simp: update_conv')
    from Cons.IH [OF d, of "k + 2" ?s1] obtain ds where
      ds: "configurations (infer_defaults (k + 2) gs ?s1) = configurations ?s1 @ ds"
        "map pair_of ds = map (\<lambda>g. (g, []))
           (filter (\<lambda>x. map_of (generator2configs ?s1) x = Some []) gs)"
        "\<forall>c\<in>set ds. k + 2 \<le> fst c" by blast
    have "configurations (infer_defaults k (g # gs) s) = configurations s @ (?new # ds) \<and>
      map pair_of (?new # ds) = map (\<lambda>g. (g, []))
        (filter (\<lambda>x. map_of (generator2configs s) x = Some []) (g # gs)) \<and>
      (\<forall>c\<in>set (?new # ds). k \<le> fst c)"
      using ds True by (auto simp: e same pair_of_default simp del: infer_defaults.simps)
    then show ?thesis by blast
  next
    case False
    then have e: "infer_defaults k (g # gs) s = infer_defaults k gs s"
      by (simp split: option.splits list.splits)
    from Cons.IH [OF d, of k s] False show ?thesis by (simp add: e del: infer_defaults.simps)
  qed
qed

lemma infer_defaults_claimed:
  "claimed (infer_defaults k gs s) g sub = Some c \<Longrightarrow> claimed s g sub = Some c \<or> k \<le> fst c"
proof (induction gs arbitrary: k s)
  case Nil
  then show ?case by simp
next
  case (Cons x gs)
  show ?case
  proof (cases "map_of (generator2configs s) x = Some []")
    case True
    let ?s1 = "s\<lparr>generator2configs :=
                  AList.update x
                    [([], (k, mkBuildConfig (Some x) (Some []) (Some []) None))]
                    (generator2configs s),
               configurations := configurations s @
                 [(k + 1, mkBuildConfig (Some x) (Some []) (Some []) None)]\<rparr>"
    have e: "infer_defaults k (x # gs) s = infer_defaults (k + 2) gs ?s1"
      using True by simp
    with Cons.prems have "claimed (infer_defaults (k + 2) gs ?s1) g sub = Some c" by simp
    from Cons.IH [OF this] have "claimed ?s1 g sub = Some c \<or> k + 2 \<le> fst c" .
    then show ?thesis
    proof
      assume "claimed ?s1 g sub = Some c"
      then show ?thesis
        by (auto simp: claimed_def update_conv' split: if_splits)
    next
      assume "k + 2 \<le> fst c"
      then show ?thesis by simp
    qed
  next
    case False
    then have e: "infer_defaults k (x # gs) s = infer_defaults k gs s"
      by (simp split: option.splits list.splits)
    with Cons.prems Cons.IH [of k s] show ?thesis by simp
  qed
qed


lemma processed_mem:
  "(j, c) \<in> set (processed L k) \<longleftrightarrow> j < k \<and> \<not> finalised L j \<and> from_makefile (L ! j) = Some c"
  by (auto simp: processed_def map_filter_def image_iff split: if_splits intro!: bexI [where x = j])

lemma processed_fst: "x \<in> set (processed L k) \<Longrightarrow> fst x < k \<and> \<not> finalised L (fst x)"
  using processed_mem [of "fst x" "snd x" L k] by simp

lemma table_inv_valid_mem:
  assumes "table_inv keys H s" and "c \<in> set (configurations s)"
  shows "c \<in> set H \<and> gen (snd c) \<in> set keys"
proof -
  from assms(2) have m: "c \<in> set (decls (configurations s) (gen (snd c), subcfg (snd c)))"
    by (simp add: decls_def pair_of_def)
  show ?thesis
  proof (cases "gen (snd c) \<in> set keys")
    case True
    from table_inv_valid [OF assms(1) True, of "subcfg (snd c)"] m
    have "decls H (gen (snd c), subcfg (snd c)) \<noteq> []"
      and "c = last (decls H (gen (snd c), subcfg (snd c)))"
      by (auto split: if_splits)
    with last_decls [of H "(gen (snd c), subcfg (snd c))"] True show ?thesis by simp
  next
    case False
    from table_inv_unknown [OF assms(1) False, of "subcfg (snd c)"] m show ?thesis by simp
  qed
qed

lemma table_inv_invalid_mem:
  assumes "table_inv keys H s" and "c \<in> set (invalid_configurations s)"
  shows "c \<in> set H"
proof -
  from assms(2) have m: "c \<in> set (decls (invalid_configurations s) (gen (snd c), subcfg (snd c)))"
    by (simp add: decls_def pair_of_def)
  show ?thesis
  proof (cases "gen (snd c) \<in> set keys")
    case True
    from table_inv_invalid [OF assms(1) True, of "subcfg (snd c)"] m
    have "c \<in> set (butlast (decls H (gen (snd c), subcfg (snd c))))" by simp
    then have "c \<in> set (decls H (gen (snd c), subcfg (snd c)))" by (rule in_set_butlastD)
    then show ?thesis by (simp add: decls_def)
  next
    case False
    from table_inv_unknown [OF assms(1) False, of "subcfg (snd c)"] m show ?thesis
      by (simp add: decls_def)
  qed
qed

lemma table_inv_claimed_mem:
  assumes "table_inv keys H s" and "claimed s g sub = Some c"
  shows "c \<in> set H"
proof -
  from claimed_Some_key [OF assms(2)] table_inv_keys [OF assms(1)] have "g \<in> set keys" by simp
  from table_inv_table [OF assms(1) this, of sub] assms(2)
  have "decls H (g, sub) \<noteq> []" and "c = last (decls H (g, sub))" by (auto split: if_splits)
  with last_decls [of H "(g, sub)"] show ?thesis by simp
qed

lemma distinct_map_filter_le1:
  "(\<And>p. length (filter (\<lambda>c. f c = p) xs) \<le> 1) \<Longrightarrow> distinct (map f xs)"
proof (induction xs)
  case Nil
  then show ?case by simp
next
  case (Cons x xs)
  have "length (filter (\<lambda>c. f c = p) xs) \<le> 1" for p
  proof -
    have "length (filter (\<lambda>c. f c = p) xs) \<le> length (filter (\<lambda>c. f c = p) (x # xs))" by simp
    also have "\<dots> \<le> 1" by (rule Cons.prems)
    finally show ?thesis .
  qed
  then have d: "distinct (map f xs)" by (rule Cons.IH)
  have "f x \<notin> f ` set xs"
  proof
    assume "f x \<in> f ` set xs"
    then obtain y where "y \<in> set xs" "f y = f x" by auto
    then have "filter (\<lambda>c. f c = f x) xs \<noteq> []" by (auto simp: filter_empty_conv)
    then have "length (filter (\<lambda>c. f c = f x) xs) \<ge> 1" by (simp add: Suc_leI)
    with Cons.prems [of "f x"] show False by simp
  qed
  with d show ?case by simp
qed

lemma table_inv_distinct:
  assumes "table_inv keys H s"
  shows "distinct (map pair_of (configurations s))"
proof (rule distinct_map_filter_le1)
  fix p :: "string \<times> string"
  obtain g sub where p: "p = (g, sub)" by (cases p)
  have "length (decls (configurations s) (g, sub)) \<le> 1"
  proof (cases "g \<in> set keys")
    case True
    from table_inv_valid [OF assms True, of sub] show ?thesis by simp
  next
    case False
    from table_inv_unknown [OF assms False, of sub] show ?thesis by simp
  qed
  then show "length (filter (\<lambda>c. pair_of c = p) (configurations s)) \<le> 1"
    by (simp add: decls_def p)
qed

lemma parse_makefile_scan:
  obtains s where
    "scan_inv (map fst (known_generators paths)) L (length L) s"
    "map fst (generator2configs s) = map fst (known_generators paths)"
    "parse_makefile paths L = Inr (infer_defaults (length L) (map fst (known_generators paths)) s)"
proof -
  from scan_all [of L paths] obtain s where
    s: "scan_lines (length L) 0 L (init_state (length L) paths) = Inr s"
      "scan_inv (map fst (known_generators paths)) L (length L) s" by blast
  from scan_inv_table [OF s(2)] have k: "map fst (generator2configs s) = map fst (known_generators paths)"
    by (rule table_inv_keys)
  from s(1) k have "parse_makefile paths L =
      Inr (infer_defaults (length L) (map fst (known_generators paths)) s)"
    by (simp add: parse_makefile_def)
  with s(2) k show ?thesis by (rule that)
qed

lemma defaulted_unclaimed:
  assumes t: "table_inv keys H s" and g: "g \<in> set keys" and e: "map_of (generator2configs s) g = Some []"
  shows "decls H (g, sub) = [] \<and> decls (configurations s) (g, sub) = []"
proof -
  from e have "claimed s g sub = None" by (simp add: claimed_def)
  with table_inv_table [OF t g, of sub] have "decls H (g, sub) = []" by (simp split: if_splits)
  with table_inv_valid [OF t g, of sub] show ?thesis by simp
qed

section \<open>The claims\<close>

text \<open>
  C4. A file \<open><name>.gen.cpp\<close> should give the generator \<open><name>\<close>, by removing the
  suffix \<open>.gen.cpp\<close> and nothing else. The code calls \<open>rstrip('.gen.cpp')\<close>, which
  removes every trailing character among \<open>.\<close>, \<open>g\<close>, \<open>e\<close>, \<open>n\<close>, \<open>c\<close> and \<open>p\<close>: for
  \<open>pipeline.gen.cpp\<close> the generator entered in the table is \<open>pipeli\<close>, not
  \<open>pipeline\<close>.
\<close>

theorem generator_name_strips_too_much:
  "generator_name ''/proj/pipeline.gen.cpp'' = ''pipeli'' \<and>
   map fst (known_generators [''/proj/pipeline.gen.cpp'']) = [''pipeli'']"
  by (simp add: generator_name_def basename_def rstrip_chars_def known_generators_def)

text \<open>
  C3, as the code has it. \<open>from_makefile\<close> takes a line for a configuration exactly
  when the line can be read as one (\<open>cfg_line\<close>): it starts with \<open>CFG__\<close> and a
  generator of word characters, followed by one whitespace character or by \<open>__\<close> and
  an optional subconfig of word characters, then a filler without newline, the equals
  sign, and a rest whose text without the whitespace around it holds no newline. The
  configuration returned is the one reading that the pattern takes (\<open>cfg_match\<close>), and
  no other: the generator is a shortest one, the subconfig is the whole run of word
  characters after \<open>__\<close>, the filler ends at the first equals sign that can be taken,
  and the value is the rest after that sign without the whitespace around it.
\<close>

theorem from_makefile_shape:
  "(from_makefile l \<noteq> None \<longleftrightarrow> (\<exists>g sub v. cfg_line l g sub v)) \<and>
   (from_makefile l = Some c \<longleftrightarrow>
      (\<exists>sub. cfg_match l (gen c) sub (val c) \<and> subcfg c = or_empty sub \<and> orig c = Some l))"
proof (intro conjI iffI)
  assume "from_makefile l \<noteq> None"
  then obtain g sub v where "re_match_cfg l = Some (g, sub, v)"
    by (auto simp: from_makefile_def split: option.splits)
  then have "cfg_line l g sub v" by (rule re_match_cfg_sound)
  then show "\<exists>g sub v. cfg_line l g sub v" by blast
next
  assume "\<exists>g sub v. cfg_line l g sub v"
  then obtain g sub v where "cfg_line l g sub v" by blast
  from re_match_cfg_complete [OF this] show "from_makefile l \<noteq> None"
    by (auto simp: from_makefile_def)
next
  assume "from_makefile l = Some c"
  then obtain g sub v where m: "re_match_cfg l = Some (g, sub, v)"
    and c: "c = \<lparr>gen = g, subcfg = or_empty sub, val = v, orig = Some l\<rparr>"
    unfolding from_makefile_Some by blast
  from re_match_cfg_first [OF m] c
  have "cfg_match l (gen c) sub (val c) \<and> subcfg c = or_empty sub \<and> orig c = Some l" by simp
  then show "\<exists>sub. cfg_match l (gen c) sub (val c) \<and> subcfg c = or_empty sub \<and> orig c = Some l"
    by blast
next
  assume "\<exists>sub. cfg_match l (gen c) sub (val c) \<and> subcfg c = or_empty sub \<and> orig c = Some l"
  then obtain sub where r: "cfg_match l (gen c) sub (val c)" "subcfg c = or_empty sub"
    "orig c = Some l" by blast
  from re_match_cfg_complete [OF cfg_match_line [OF r(1)]] obtain g0 sub0 v0 where
    m: "re_match_cfg l = Some (g0, sub0, v0)" by blast
  from cfg_match_unique [OF re_match_cfg_first [OF m] r(1)]
  have "g0 = gen c" "sub0 = sub" "v0 = val c" by simp_all
  with m r(2,3) have "from_makefile l = Some \<lparr>gen = gen c, subcfg = subcfg c, val = val c, orig = orig c\<rparr>"
    by (simp add: from_makefile_def mkBuildConfig_def)
  then show "from_makefile l = Some c" by simp
qed

text \<open>
  The line \<open>CFG__foo__bar = a = b\<close>: the generator is \<open>foo\<close>, the subconfig \<open>bar\<close> and
  the value \<open>a = b\<close>. The reading with the second equals sign and the value \<open>b\<close> is a
  reading of the line, but not the one taken; nor is a subconfig \<open>b\<close>.
\<close>

theorem from_makefile_shape_witness:
  "from_makefile ''CFG__foo__bar = a = b'' =
     Some \<lparr>gen = ''foo'', subcfg = ''bar'', val = ''a = b'',
           orig = Some ''CFG__foo__bar = a = b''\<rparr> \<and>
   (\<exists>sub. cfg_match ''CFG__foo__bar = a = b'' ''foo'' sub ''a = b'' \<and> ''bar'' = or_empty sub) \<and>
   cfg_line ''CFG__foo__bar = a = b'' ''foo'' (Some ''bar'') ''b'' \<and>
   \<not> cfg_match ''CFG__foo__bar = a = b'' ''foo'' (Some ''bar'') ''b'' \<and>
   \<not> cfg_match ''CFG__foo__bar = a = b'' ''foo'' (Some ''b'') ''a = b''"
proof -
  define L where "L = ''CFG__foo__bar = a = b''"
  have e: "from_makefile L =
     Some \<lparr>gen = ''foo'', subcfg = ''bar'', val = ''a = b'', orig = Some L\<rparr>"
    unfolding L_def by code_simp
  from from_makefile_shape [of L "\<lparr>gen = ''foo'', subcfg = ''bar'', val = ''a = b'', orig = Some L\<rparr>"] e
  have 1: "\<exists>sub. cfg_match L ''foo'' sub ''a = b'' \<and> ''bar'' = or_empty sub" by simp
  have 2: "\<not> cfg_match L ''foo'' (Some ''bar'') ''b''"
  proof
    assume "cfg_match L ''foo'' (Some ''bar'') ''b''"
    with from_makefile_shape [of L "\<lparr>gen = ''foo'', subcfg = ''bar'', val = ''b'', orig = Some L\<rparr>"]
    have "from_makefile L = Some \<lparr>gen = ''foo'', subcfg = ''bar'', val = ''b'', orig = Some L\<rparr>"
      by auto
    with e show False by simp
  qed
  have 3: "\<not> cfg_match L ''foo'' (Some ''b'') ''a = b''"
  proof
    assume "cfg_match L ''foo'' (Some ''b'') ''a = b''"
    with from_makefile_shape [of L "\<lparr>gen = ''foo'', subcfg = ''b'', val = ''a = b'', orig = Some L\<rparr>"]
    have "from_makefile L = Some \<lparr>gen = ''foo'', subcfg = ''b'', val = ''a = b'', orig = Some L\<rparr>"
      by auto
    with e show False by simp
  qed
  have 4: "cfg_line L ''foo'' (Some ''bar'') ''b''" unfolding L_def by (rule cfg_line_greedy)
  from e 1 4 2 3 have "from_makefile L =
     Some \<lparr>gen = ''foo'', subcfg = ''bar'', val = ''a = b'', orig = Some L\<rparr> \<and>
   (\<exists>sub. cfg_match L ''foo'' sub ''a = b'' \<and> ''bar'' = or_empty sub) \<and>
   cfg_line L ''foo'' (Some ''bar'') ''b'' \<and>
   \<not> cfg_match L ''foo'' (Some ''bar'') ''b'' \<and>
   \<not> cfg_match L ''foo'' (Some ''b'') ''a = b''" by (intro conjI)
  then show ?thesis unfolding L_def .
qed

text \<open>
  C3 as stated fails in three ways: \<open>CFG__foo=1\<close> has nothing between the generator and
  the equals sign, \<open> CFG__foo = 1\<close> contains the marker but does not start with it,
  and the third line has a newline in its filler. None of them is a configuration for
  the code.
\<close>

theorem from_makefile_counterexample:
  "(spec_cfg_line ''CFG__foo=1'' \<and> from_makefile ''CFG__foo=1'' = None) \<and>
   (spec_cfg_line '' CFG__foo = 1'' \<and> from_makefile '' CFG__foo = 1'' = None) \<and>
   (spec_cfg_line (''CFG__a x'' @ [newline] @ ''=1'') \<and>
    from_makefile (''CFG__a x'' @ [newline] @ ''=1'') = None)"
proof -
  have w: "list_all is_word ''foo''" "list_all is_word ''a''"
    by (simp_all add: is_word_def code_def)
  have "''CFG__foo=1'' = [] @ ''CFG__'' @ ''foo'' @ [] @ [] @ ''='' @ ''1''" by simp
  with w have 1: "spec_cfg_line ''CFG__foo=1''" unfolding spec_cfg_line_def by blast
  have "'' CFG__foo = 1'' = '' '' @ ''CFG__'' @ ''foo'' @ [] @ '' '' @ ''='' @ '' 1''" by simp
  with w have 2: "spec_cfg_line '' CFG__foo = 1''" unfolding spec_cfg_line_def by blast
  have "''CFG__a x'' @ [newline] @ ''=1'' = [] @ ''CFG__'' @ ''a'' @ [] @ ('' x'' @ [newline]) @ ''='' @ ''1''"
    by simp
  with w have 3: "spec_cfg_line (''CFG__a x'' @ [newline] @ ''=1'')"
    unfolding spec_cfg_line_def by blast
  have 4: "from_makefile ''CFG__foo=1'' = None" by code_simp
  have 5: "from_makefile '' CFG__foo = 1'' = None" by code_simp
  have 6: "from_makefile (''CFG__a x'' @ [newline] @ ''=1'') = None" by code_simp
  from 1 2 3 4 5 6 show ?thesis by blast
qed

text \<open>
  C7. After \<open>_parse_makefile\<close>, with the inferred configurations appended, no two
  entries of the list of valid configurations have the same generator and subconfig.
  The function returns for every makefile and every set of generator files: the
  \<open>ValueError\<close> of \<open>list.remove\<close> does not occur.
\<close>

theorem valid_pairs_unique:
  "\<exists>s. parse_makefile paths lines = Inr s \<and> distinct (map pair_of (configurations s))"
proof -
  let ?keys = "map fst (known_generators paths)"
  obtain s where inv: "scan_inv ?keys lines (length lines) s"
    and p: "parse_makefile paths lines = Inr (infer_defaults (length lines) ?keys s)"
    by (rule parse_makefile_scan)
  note t = scan_inv_table [OF inv]
  have dk: "distinct ?keys" by (rule known_generators_distinct)
  from infer_defaults_configurations [OF dk, of "length lines" s] obtain ds where
    ds: "configurations (infer_defaults (length lines) ?keys s) = configurations s @ ds"
      "map pair_of ds = map (\<lambda>g. (g, []))
         (filter (\<lambda>g. map_of (generator2configs s) g = Some []) ?keys)"
    by blast
  have 1: "distinct (map pair_of (configurations s))" using t by (rule table_inv_distinct)
  have 2: "distinct (map pair_of ds)"
    unfolding ds(2) using dk by (simp add: distinct_map inj_on_def)
  have 3: "set (map pair_of (configurations s)) \<inter> set (map pair_of ds) = {}"
  proof (rule ccontr)
    assume "set (map pair_of (configurations s)) \<inter> set (map pair_of ds) \<noteq> {}"
    then obtain p where p1: "p \<in> set (map pair_of (configurations s))"
      and p2: "p \<in> set (map (\<lambda>g. (g, []))
         (filter (\<lambda>g. map_of (generator2configs s) g = Some []) ?keys))"
      unfolding ds(2) by blast
    from p2 obtain g where g: "g \<in> set ?keys" "map_of (generator2configs s) g = Some []"
      and pg: "p = (g, [])" by auto
    from p1 pg obtain c where c: "c \<in> set (configurations s)" "pair_of c = (g, [])" by auto
    from defaulted_unclaimed [OF t g, of "[]"] have "decls (configurations s) (g, []) = []" by simp
    with c show False by (auto simp: decls_def filter_empty_conv)
  qed
  from 1 2 3 have "distinct (map pair_of (configurations (infer_defaults (length lines) ?keys s)))"
    by (simp add: ds(1))
  with p show ?thesis by blast
qed

text \<open>
  The scan of two lines with the generators \<open>foo\<close> and \<open>baz\<close>: \<open>foo\<close> is declared,
  \<open>bar\<close> is unknown, and \<open>baz\<close> gets its inferred configuration.
\<close>

theorem valid_pairs_unique_witness:
  "\<exists>s. parse_makefile [''/p/foo.gen.cpp'', ''/p/baz.gen.cpp'']
         [''CFG__foo = 1\<newline>'', ''CFG__bar = 5\<newline>''] = Inr s \<and>
       map pair_of (configurations s) = [(''foo'', []), (''baz'', [])] \<and>
       distinct (map pair_of (configurations s))"
proof -
  define L where "L = [''CFG__foo = 1\<newline>'', ''CFG__bar = 5\<newline>'']"
  define P where "P = [''/p/foo.gen.cpp'', ''/p/baz.gen.cpp'']"
  have e: "map_sum id (map pair_of \<circ> configurations) (parse_makefile P L) =
      Inr [(''foo'', []), (''baz'', [])]"
    unfolding L_def P_def by code_simp
  from valid_pairs_unique [of P L] obtain s where
    s: "parse_makefile P L = Inr s" "distinct (map pair_of (configurations s))" by blast
  from e s(1) have "map pair_of (configurations s) = [(''foo'', []), (''baz'', [])]" by simp
  with s have "\<exists>s. parse_makefile P L = Inr s \<and>
       map pair_of (configurations s) = [(''foo'', []), (''baz'', [])] \<and>
       distinct (map pair_of (configurations s))" by (intro exI [of _ s] conjI)
  then show ?thesis unfolding L_def P_def .
qed

text \<open>
  C1, as the code has it. The declarations that count are those read while the block
  is open (\<open>processed\<close>): the configuration lines before the first line that is neither
  blank nor a configuration and follows a configuration line. If a pair with a known
  generator has such declarations, the last of them is its one entry in the list of
  valid configurations, and the others are its entries in the list of invalid
  configurations, in the order of the lines.
\<close>

theorem override_completeness:
  assumes g: "g \<in> set (map fst (known_generators paths))"
    and d: "decls (processed lines (length lines)) (g, sub) \<noteq> []"
  shows "\<exists>s. parse_makefile paths lines = Inr s \<and>
      decls (configurations s) (g, sub) = [last (decls (processed lines (length lines)) (g, sub))] \<and>
      decls (invalid_configurations s) (g, sub) =
        butlast (decls (processed lines (length lines)) (g, sub))"
proof -
  let ?keys = "map fst (known_generators paths)"
  obtain s where inv: "scan_inv ?keys lines (length lines) s"
    and p: "parse_makefile paths lines = Inr (infer_defaults (length lines) ?keys s)"
    by (rule parse_makefile_scan)
  note t = scan_inv_table [OF inv]
  let ?s' = "infer_defaults (length lines) ?keys s"
  have dk: "distinct ?keys" by (rule known_generators_distinct)
  from infer_defaults_configurations [OF dk, of "length lines" s] obtain ds where
    ds: "configurations ?s' = configurations s @ ds"
      "map pair_of ds = map (\<lambda>g. (g, []))
         (filter (\<lambda>g. map_of (generator2configs s) g = Some []) ?keys)"
    by blast
  have "decls ds (g, sub) = []"
  proof (rule ccontr)
    assume "decls ds (g, sub) \<noteq> []"
    then obtain c where "c \<in> set ds" "pair_of c = (g, sub)"
      by (auto simp: decls_def filter_empty_conv)
    then have "(g, sub) \<in> set (map pair_of ds)" by force
    then have "map_of (generator2configs s) g = Some []" unfolding ds(2) by auto
    from defaulted_unclaimed [OF t g this, of sub] d show False by simp
  qed
  with table_inv_valid [OF t g, of sub] d
  have v: "decls (configurations ?s') (g, sub) =
      [last (decls (processed lines (length lines)) (g, sub))]"
    by (simp add: ds(1) decls_append)
  from table_inv_invalid [OF t g, of sub] infer_defaults_frame [of "length lines" ?keys s]
  have "decls (invalid_configurations ?s') (g, sub) =
      butlast (decls (processed lines (length lines)) (g, sub))" by simp
  with v p show ?thesis by blast
qed

text \<open>
  Two declarations of the pair \<open>(foo, o)\<close>: the object of line 1 is valid, the object
  of line 0 is invalid.
\<close>

theorem override_completeness_witness:
  "''foo'' \<in> set (map fst (known_generators [''/p/foo.gen.cpp''])) \<and>
   decls (processed [''CFG__foo__o = 1\<newline>'', ''CFG__foo__o = 2\<newline>''] 2) (''foo'', ''o'') \<noteq> [] \<and>
   (\<exists>s. parse_makefile [''/p/foo.gen.cpp'']
          [''CFG__foo__o = 1\<newline>'', ''CFG__foo__o = 2\<newline>''] = Inr s \<and>
        map fst (decls (configurations s) (''foo'', ''o'')) = [1] \<and>
        map fst (decls (invalid_configurations s) (''foo'', ''o'')) = [0])"
proof -
  define L where "L = [''CFG__foo__o = 1\<newline>'', ''CFG__foo__o = 2\<newline>'']"
  define P where "P = [''/p/foo.gen.cpp'']"
  define p where "p = (''foo'', ''o'')"
  define ds where "ds = decls (processed L 2) p"
  have g: "''foo'' \<in> set (map fst (known_generators P))" unfolding P_def by code_simp
  have m: "map fst ds = [0, 1]" unfolding ds_def L_def p_def by code_simp
  then have d: "ds \<noteq> []" by auto
  have len: "length L = 2" unfolding L_def by simp
  from override_completeness [of "''foo''" P L "''o''"] g d obtain s where
    s: "parse_makefile P L = Inr s"
      "decls (configurations s) p = [last ds]"
      "decls (invalid_configurations s) p = butlast ds"
    unfolding len ds_def p_def by blast
  from d have "fst (last ds) = last (map fst ds)" by (simp add: last_map)
  with m have 1: "fst (last ds) = 1" by simp
  have "map fst (butlast ds) = butlast (map fst ds)" by (simp add: map_butlast)
  with m have 2: "map fst (butlast ds) = [0]" by simp
  from s 1 2 have "parse_makefile P L = Inr s \<and>
        map fst (decls (configurations s) p) = [1] \<and>
        map fst (decls (invalid_configurations s) p) = [0]" by simp
  then have "\<exists>s. parse_makefile P L = Inr s \<and>
        map fst (decls (configurations s) p) = [1] \<and>
        map fst (decls (invalid_configurations s) p) = [0]" by (rule exI)
  with g d have "''foo'' \<in> set (map fst (known_generators P)) \<and> ds \<noteq> [] \<and>
     (\<exists>s. parse_makefile P L = Inr s \<and>
        map fst (decls (configurations s) p) = [1] \<and>
        map fst (decls (invalid_configurations s) p) = [0])" by (intro conjI)
  then show ?thesis unfolding ds_def p_def L_def P_def .
qed

text \<open>
  C1 as stated fails when a declaration follows the end of the block: the pair
  \<open>(foo, opt)\<close> is declared in line 0 and again in line 2, after \<open>all:\<close>. The
  second declaration is not read; the first one stays valid and nothing is invalid.
\<close>

theorem override_completeness_counterexample:
  "from_makefile ''CFG__foo__opt = 1\<newline>'' =
     Some \<lparr>gen = ''foo'', subcfg = ''opt'', val = ''1'', orig = Some ''CFG__foo__opt = 1\<newline>''\<rparr> \<and>
   from_makefile ''CFG__foo__opt = 2\<newline>'' =
     Some \<lparr>gen = ''foo'', subcfg = ''opt'', val = ''2'', orig = Some ''CFG__foo__opt = 2\<newline>''\<rparr> \<and>
   known_generators [''/p/foo.gen.cpp''] = [(''foo'', [])] \<and>
   parse_makefile [''/p/foo.gen.cpp'']
     [''CFG__foo__opt = 1\<newline>'', ''all:\<newline>'', ''CFG__foo__opt = 2\<newline>''] =
     Inr \<lparr>saw_generator_comment = False, after_comment = 3, cfg_start = 0,
        cfg_end = 1, last_cfg = 0,
        configurations =
          [(0, \<lparr>gen = ''foo'', subcfg = ''opt'', val = ''1'',
                  orig = Some ''CFG__foo__opt = 1\<newline>''\<rparr>)],
        invalid_configurations = [],
        generator2configs =
          [(''foo'',
            [(''opt'', 0,
              \<lparr>gen = ''foo'', subcfg = ''opt'', val = ''1'',
                 orig = Some ''CFG__foo__opt = 1\<newline>''\<rparr>)])],
        warnings = []\<rparr>"
  by code_simp

text \<open>
  C2, as the code has it. A configuration line whose generator is not in the table
  never gives an entry of the list of valid configurations (no valid entry has its
  generator at all); it is in the list of invalid configurations exactly when it is
  read while the block is open.
\<close>

theorem unknown_generator_routing:
  assumes j: "j < length lines" and c: "from_makefile (lines ! j) = Some c"
    and u: "gen c \<notin> set (map fst (known_generators paths))"
  shows "\<exists>s. parse_makefile paths lines = Inr s \<and>
      (\<forall>x\<in>set (configurations s). gen (snd x) \<noteq> gen c) \<and>
      ((j, c) \<in> set (invalid_configurations s) \<longleftrightarrow> \<not> finalised lines j)"
proof -
  let ?keys = "map fst (known_generators paths)"
  obtain s where inv: "scan_inv ?keys lines (length lines) s"
    and p: "parse_makefile paths lines = Inr (infer_defaults (length lines) ?keys s)"
    by (rule parse_makefile_scan)
  note t = scan_inv_table [OF inv]
  let ?s' = "infer_defaults (length lines) ?keys s"
  have dk: "distinct ?keys" by (rule known_generators_distinct)
  from infer_defaults_configurations [OF dk, of "length lines" s] obtain ds where
    ds: "configurations ?s' = configurations s @ ds"
      "map pair_of ds = map (\<lambda>g. (g, []))
         (filter (\<lambda>g. map_of (generator2configs s) g = Some []) ?keys)"
    by blast
  have v: "gen (snd x) \<noteq> gen c" if "x \<in> set (configurations ?s')" for x
  proof (cases "x \<in> set (configurations s)")
    case True
    from table_inv_valid_mem [OF t True] u show ?thesis by (auto simp del: set_map)
  next
    case False
    with that ds(1) have "x \<in> set ds" by simp
    then have "pair_of x \<in> set (map pair_of ds)" by simp
    then have "gen (snd x) \<in> set ?keys" unfolding ds(2) by (auto simp: pair_of_def)
    with u show ?thesis by (auto simp del: set_map)
  qed
  from table_inv_unknown [OF t u, of "subcfg c"]
  have "decls (invalid_configurations s) (gen c, subcfg c) =
      decls (processed lines (length lines)) (gen c, subcfg c)" by simp
  then have "(j, c) \<in> set (invalid_configurations s) \<longleftrightarrow> (j, c) \<in> set (processed lines (length lines))"
    by (auto simp: decls_def pair_of_def dest!: arg_cong [where f = set])
  with j c have "(j, c) \<in> set (invalid_configurations ?s') \<longleftrightarrow> \<not> finalised lines j"
    using infer_defaults_frame [of "length lines" ?keys s] by (simp add: processed_mem)
  with v p show ?thesis by blast
qed

text \<open>
  The unknown generator \<open>bar\<close> in line 1, inside the block.
\<close>

theorem unknown_generator_routing_witness:
  "1 < length [''CFG__foo = 1\<newline>'', ''CFG__bar = 5\<newline>''] \<and>
   from_makefile ([''CFG__foo = 1\<newline>'', ''CFG__bar = 5\<newline>''] ! 1) =
     Some \<lparr>gen = ''bar'', subcfg = [], val = ''5'', orig = Some ''CFG__bar = 5\<newline>''\<rparr> \<and>
   gen \<lparr>gen = ''bar'', subcfg = [], val = ''5'', orig = Some ''CFG__bar = 5\<newline>''\<rparr>
     \<notin> set (map fst (known_generators [''/p/foo.gen.cpp''])) \<and>
   \<not> finalised [''CFG__foo = 1\<newline>'', ''CFG__bar = 5\<newline>''] 1 \<and>
   (\<exists>s. parse_makefile [''/p/foo.gen.cpp''] [''CFG__foo = 1\<newline>'', ''CFG__bar = 5\<newline>''] = Inr s \<and>
        (1, \<lparr>gen = ''bar'', subcfg = [], val = ''5'', orig = Some ''CFG__bar = 5\<newline>''\<rparr>)
          \<in> set (invalid_configurations s))"
proof -
  define L where "L = [''CFG__foo = 1\<newline>'', ''CFG__bar = 5\<newline>'']"
  define P where "P = [''/p/foo.gen.cpp'']"
  define c where "c = \<lparr>gen = ''bar'', subcfg = [], val = ''5'', orig = Some ''CFG__bar = 5\<newline>''\<rparr>"
  have j: "1 < length L" unfolding L_def by simp
  have e: "from_makefile (L ! 1) = Some c" unfolding L_def c_def by code_simp
  have u: "gen c \<notin> set (map fst (known_generators P))" unfolding c_def P_def by code_simp
  have f: "\<not> finalised L 1" unfolding L_def by code_simp
  from unknown_generator_routing [OF j e u] obtain s where
    s: "parse_makefile P L = Inr s"
      "(1, c) \<in> set (invalid_configurations s) \<longleftrightarrow> \<not> finalised L 1" by blast
  from s f have "parse_makefile P L = Inr s \<and> (1, c) \<in> set (invalid_configurations s)" by simp
  then have "\<exists>s. parse_makefile P L = Inr s \<and> (1, c) \<in> set (invalid_configurations s)"
    by (rule exI)
  with j e u f have "1 < length L \<and> from_makefile (L ! 1) = Some c \<and>
     gen c \<notin> set (map fst (known_generators P)) \<and> \<not> finalised L 1 \<and>
     (\<exists>s. parse_makefile P L = Inr s \<and> (1, c) \<in> set (invalid_configurations s))"
    by (intro conjI)
  then show ?thesis unfolding L_def P_def c_def .
qed

text \<open>
  C2 as stated fails after the end of the block: the line of the unknown generator
  \<open>bar\<close> follows \<open>all:\<close> and is not put into the list of invalid configurations.
\<close>

theorem unknown_generator_routing_counterexample:
  "from_makefile ''CFG__bar = 5\<newline>'' =
     Some \<lparr>gen = ''bar'', subcfg = [], val = ''5'', orig = Some ''CFG__bar = 5\<newline>''\<rparr> \<and>
   known_generators [''/p/foo.gen.cpp''] = [(''foo'', [])] \<and>
   parse_makefile [''/p/foo.gen.cpp'']
     [''CFG__foo = 1\<newline>'', ''all:\<newline>'', ''CFG__bar = 5\<newline>''] =
     Inr \<lparr>saw_generator_comment = False, after_comment = 3, cfg_start = 0,
        cfg_end = 1, last_cfg = 0,
        configurations =
          [(0, \<lparr>gen = ''foo'', subcfg = [], val = ''1'',
                  orig = Some ''CFG__foo = 1\<newline>''\<rparr>)],
        invalid_configurations = [],
        generator2configs =
          [(''foo'',
            [([], 0,
              \<lparr>gen = ''foo'', subcfg = [], val = ''1'',
                 orig = Some ''CFG__foo = 1\<newline>''\<rparr>)])],
        warnings = []\<rparr>"
  by code_simp

text \<open>
  C6, as the code has it. If line \<open>h\<close> is the first header comment, \<open>after_comment\<close>
  is the index of the first line after it that is blank or is no comment, and the
  number of lines if there is none.
\<close>

theorem after_comment_anchor:
  assumes h: "h < length lines" and hd: "is_header (lines ! h)"
    and first: "\<forall>i<h. \<not> is_header (lines ! i)"
  shows "\<exists>s. parse_makefile paths lines = Inr s \<and>
      (\<forall>j. h < j \<and> j < length lines \<and>
           (is_blank (lines ! j) \<or> \<not> is_comment (lines ! j)) \<and>
           (\<forall>i. h < i \<and> i < j \<longrightarrow> \<not> is_blank (lines ! i) \<and> is_comment (lines ! i)) \<longrightarrow>
           after_comment s = j) \<and>
      ((\<forall>j. h < j \<and> j < length lines \<longrightarrow> \<not> is_blank (lines ! j) \<and> is_comment (lines ! j)) \<longrightarrow>
           after_comment s = length lines)"
proof -
  let ?keys = "map fst (known_generators paths)"
  let ?n = "length lines"
  obtain s where inv: "scan_inv ?keys lines ?n s"
    and p: "parse_makefile paths lines = Inr (infer_defaults ?n ?keys s)"
    by (rule parse_makefile_scan)
  let ?s' = "infer_defaults ?n ?keys s"
  from infer_defaults_frame [of ?n ?keys s] have a': "after_comment ?s' = after_comment s" by simp
  from scan_inv_comment [OF inv] have ai: "after_comment_inv lines ?n (after_comment s)" by simp
  have sets: "sets_after_comment lines j \<longleftrightarrow>
      h < j \<and> (is_blank (lines ! j) \<or> \<not> is_comment (lines ! j))" for j
  proof
    assume s: "sets_after_comment lines j"
    then obtain h' where h': "h' < j" "is_header (lines ! h')" by (auto simp: sets_after_comment_def)
    with first have "h \<le> h'" by (meson not_le_imp_less)
    with h' s show "h < j \<and> (is_blank (lines ! j) \<or> \<not> is_comment (lines ! j))"
      by (auto simp: sets_after_comment_def)
  next
    assume "h < j \<and> (is_blank (lines ! j) \<or> \<not> is_comment (lines ! j))"
    with hd show "sets_after_comment lines j" by (auto simp: sets_after_comment_def)
  qed
  have 1: "after_comment s = j"
    if j: "h < j" "j < ?n" "is_blank (lines ! j) \<or> \<not> is_comment (lines ! j)"
      and b: "\<forall>i. h < i \<and> i < j \<longrightarrow> \<not> is_blank (lines ! i) \<and> is_comment (lines ! i)" for j
  proof -
    from j have sj: "sets_after_comment lines j" by (simp add: sets)
    with ai j(2) have a: "after_comment s < ?n" "sets_after_comment lines (after_comment s)"
      "\<forall>i<after_comment s. \<not> sets_after_comment lines i"
      unfolding after_comment_inv_def by auto
    from a(3) sj have le: "after_comment s \<le> j" by (meson not_le_imp_less)
    have "\<not> after_comment s < j"
    proof
      assume "after_comment s < j"
      with a(2) b show False by (auto simp: sets)
    qed
    with le show ?thesis by simp
  qed
  have 2: "after_comment s = ?n"
    if "\<forall>j. h < j \<and> j < ?n \<longrightarrow> \<not> is_blank (lines ! j) \<and> is_comment (lines ! j)"
  proof -
    from that have "\<not> sets_after_comment lines j" if "j < ?n" for j
      using that by (auto simp: sets)
    with ai show ?thesis unfolding after_comment_inv_def by auto
  qed
  from 1 2 a' p show ?thesis by (intro exI [of _ ?s']) simp
qed

text \<open>
  A header, a second comment and a rule: the anchor is the rule, line 2.
\<close>

theorem after_comment_anchor_witness:
  "0 < length [''# Configure generators\<newline>'', ''# more\<newline>'', ''all:\<newline>''] \<and>
   is_header ''# Configure generators\<newline>'' \<and>
   \<not> is_blank ''# more\<newline>'' \<and> is_comment ''# more\<newline>'' \<and>
   \<not> is_comment ''all:\<newline>'' \<and>
   (\<exists>s. parse_makefile [] [''# Configure generators\<newline>'', ''# more\<newline>'', ''all:\<newline>''] = Inr s \<and>
        after_comment s = 2)"
proof -
  define L where "L = [''# Configure generators\<newline>'', ''# more\<newline>'', ''all:\<newline>'']"
  have n: "length L = 3" unfolding L_def by simp
  have l: "L ! 0 = ''# Configure generators\<newline>''" "L ! 1 = ''# more\<newline>''"
    "L ! 2 = ''all:\<newline>''" unfolding L_def by simp_all
  have h: "is_header ''# Configure generators\<newline>''" by code_simp
  have b: "\<not> is_blank ''# more\<newline>''" by code_simp
  have c: "is_comment ''# more\<newline>''" by code_simp
  have d: "\<not> is_comment ''all:\<newline>''" by code_simp
  have 1: "0 < length L" by (simp add: n)
  have 2: "is_header (L ! 0)" using h by (simp only: l)
  have 3: "\<forall>i<0::nat. \<not> is_header (L ! i)" by simp
  from after_comment_anchor [OF 1 2 3, of "[]"] obtain s where
    s: "parse_makefile [] L = Inr s"
      "\<forall>j. 0 < j \<and> j < length L \<and> (is_blank (L ! j) \<or> \<not> is_comment (L ! j)) \<and>
           (\<forall>i. 0 < i \<and> i < j \<longrightarrow> \<not> is_blank (L ! i) \<and> is_comment (L ! i)) \<longrightarrow>
           after_comment s = j" by blast
  have "\<forall>i. 0 < i \<and> i < (2::nat) \<longrightarrow> \<not> is_blank (L ! i) \<and> is_comment (L ! i)"
  proof (intro allI impI)
    fix i :: nat assume "0 < i \<and> i < 2"
    then have "i = 1" by simp
    with b c show "\<not> is_blank (L ! i) \<and> is_comment (L ! i)" by (simp only: l) simp
  qed
  moreover have "\<not> is_comment (L ! 2)" using d by (simp add: l)
  ultimately have "after_comment s = 2" using s(2) [rule_format, of 2] n by simp
  with s(1) have "\<exists>s. parse_makefile [] L = Inr s \<and> after_comment s = 2" by blast
  with 1 h b c d have "0 < length L \<and> is_header ''# Configure generators\<newline>'' \<and>
     \<not> is_blank ''# more\<newline>'' \<and> is_comment ''# more\<newline>'' \<and>
     \<not> is_comment ''all:\<newline>'' \<and>
     (\<exists>s. parse_makefile [] L = Inr s \<and> after_comment s = 2)" by (intro conjI)
  then show ?thesis unfolding L_def .
qed

text \<open>
  C6 as stated fails at a blank line: the first line after the header that is neither
  blank nor a comment is line 2, but the blank line 1 sets \<open>after_comment\<close>.
\<close>

theorem after_comment_anchor_counterexample:
  "is_header ''# Configure generators\<newline>'' \<and>
   is_blank ''\<newline>'' \<and>
   \<not> is_blank ''all: gen\<newline>'' \<and> \<not> is_comment ''all: gen\<newline>'' \<and>
   parse_makefile [] [''# Configure generators\<newline>'', ''\<newline>'', ''all: gen\<newline>''] =
     Inr \<lparr>saw_generator_comment = True, after_comment = 1, cfg_start = 3,
        cfg_end = 3, last_cfg = 3, configurations = [],
        invalid_configurations = [], generator2configs = [], warnings = []\<rparr>"
  by code_simp

text \<open>
  C8, as the code has it. The end of the block is fixed once a line that is neither
  blank nor a configuration has been read after a configuration line. A line \<open>j\<close>
  read after that leaves no trace: no object of line \<open>j\<close> is in the list of valid or of
  invalid configurations or holds a pair in the table, and no warning names the line
  number \<open>j + 1\<close>.
\<close>

theorem ignored_after_block_end:
  assumes j: "j < length lines" and f: "finalised lines j"
  shows "\<exists>s. parse_makefile paths lines = Inr s \<and>
      (\<forall>c. (j, c) \<notin> set (configurations s) \<and> (j, c) \<notin> set (invalid_configurations s) \<and>
           (\<forall>g sub. claimed s g sub \<noteq> Some (j, c))) \<and>
      (\<forall>d\<in>set (warnings s). diag_line d \<noteq> j + 1)"
proof -
  let ?keys = "map fst (known_generators paths)"
  obtain s where inv: "scan_inv ?keys lines (length lines) s"
    and p: "parse_makefile paths lines = Inr (infer_defaults (length lines) ?keys s)"
    by (rule parse_makefile_scan)
  note t = scan_inv_table [OF inv]
  let ?s' = "infer_defaults (length lines) ?keys s"
  let ?H = "processed lines (length lines)"
  have dk: "distinct ?keys" by (rule known_generators_distinct)
  note fr = infer_defaults_frame [of "length lines" ?keys s]
  from infer_defaults_configurations [OF dk, of "length lines" s] obtain ds where
    ds: "configurations ?s' = configurations s @ ds" "\<forall>c\<in>set ds. length lines \<le> fst c"
    by blast
  have nH: "x \<in> set ?H \<Longrightarrow> fst x \<noteq> j" for x
    using processed_fst [of x lines "length lines"] f by auto
  have 1: "(j, c) \<notin> set (configurations ?s')" for c
  proof
    assume "(j, c) \<in> set (configurations ?s')"
    with ds(1) have "(j, c) \<in> set (configurations s) \<or> (j, c) \<in> set ds" by simp
    then show False
    proof
      assume "(j, c) \<in> set (configurations s)"
      from table_inv_valid_mem [OF t this] nH [of "(j, c)"] show False by simp
    next
      assume "(j, c) \<in> set ds"
      with ds(2) j show False by auto
    qed
  qed
  have 2: "(j, c) \<notin> set (invalid_configurations ?s')" for c
  proof
    assume "(j, c) \<in> set (invalid_configurations ?s')"
    with fr have "(j, c) \<in> set (invalid_configurations s)" by simp
    from table_inv_invalid_mem [OF t this] nH [of "(j, c)"] show False by simp
  qed
  have 3: "claimed ?s' g sub \<noteq> Some (j, c)" for g sub c
  proof
    assume "claimed ?s' g sub = Some (j, c)"
    from infer_defaults_claimed [OF this] have "claimed s g sub = Some (j, c) \<or> length lines \<le> j"
      by simp
    then show False
    proof
      assume "claimed s g sub = Some (j, c)"
      from table_inv_claimed_mem [OF t this] nH [of "(j, c)"] show False by simp
    next
      assume "length lines \<le> j"
      with j show False by simp
    qed
  qed
  have 4: "diag_line d \<noteq> j + 1" if "d \<in> set (warnings ?s')" for d
  proof -
    from that fr have "d \<in> set (warnings s)" by simp
    from table_inv_warnings [OF t this] obtain x where "x \<in> set ?H" "diag_line d = fst x + 1"
      by blast
    with nH [of x] show ?thesis by simp
  qed
  from 1 2 3 4 p show ?thesis by blast
qed

text \<open>
  The configuration in line 2 follows \<open>all:\<close> and is ignored.
\<close>

theorem ignored_after_block_end_witness:
  "2 < length [''CFG__foo = 1\<newline>'', ''all:\<newline>'', ''CFG__foo = 7\<newline>''] \<and>
   finalised [''CFG__foo = 1\<newline>'', ''all:\<newline>'', ''CFG__foo = 7\<newline>''] 2 \<and>
   from_makefile ''CFG__foo = 7\<newline>'' =
     Some \<lparr>gen = ''foo'', subcfg = [], val = ''7'', orig = Some ''CFG__foo = 7\<newline>''\<rparr> \<and>
   (\<exists>s. parse_makefile [''/p/foo.gen.cpp'']
          [''CFG__foo = 1\<newline>'', ''all:\<newline>'', ''CFG__foo = 7\<newline>''] = Inr s \<and>
        (2, \<lparr>gen = ''foo'', subcfg = [], val = ''7'', orig = Some ''CFG__foo = 7\<newline>''\<rparr>)
          \<notin> set (configurations s) \<and>
        (2, \<lparr>gen = ''foo'', subcfg = [], val = ''7'', orig = Some ''CFG__foo = 7\<newline>''\<rparr>)
          \<notin> set (invalid_configurations s) \<and>
        claimed s ''foo'' [] \<noteq>
          Some (2, \<lparr>gen = ''foo'', subcfg = [], val = ''7'', orig = Some ''CFG__foo = 7\<newline>''\<rparr>))"
proof -
  define L where "L = [''CFG__foo = 1\<newline>'', ''all:\<newline>'', ''CFG__foo = 7\<newline>'']"
  define P where "P = [''/p/foo.gen.cpp'']"
  define c where "c = \<lparr>gen = ''foo'', subcfg = [], val = ''7'', orig = Some ''CFG__foo = 7\<newline>''\<rparr>"
  have j: "2 < length L" unfolding L_def by simp
  have f: "finalised L 2" unfolding L_def by code_simp
  have e: "from_makefile ''CFG__foo = 7\<newline>'' = Some c" unfolding c_def by code_simp
  from ignored_after_block_end [OF j f, of P] obtain s where
    s: "parse_makefile P L = Inr s"
      "\<forall>c. (2, c) \<notin> set (configurations s) \<and> (2, c) \<notin> set (invalid_configurations s) \<and>
           (\<forall>g sub. claimed s g sub \<noteq> Some (2, c))" by blast
  from s(2) have "(2, c) \<notin> set (configurations s)" "(2, c) \<notin> set (invalid_configurations s)"
    "claimed s ''foo'' [] \<noteq> Some (2, c)" by simp_all
  with s(1) have "parse_makefile P L = Inr s \<and> (2, c) \<notin> set (configurations s) \<and>
      (2, c) \<notin> set (invalid_configurations s) \<and> claimed s ''foo'' [] \<noteq> Some (2, c)"
    by (intro conjI)
  then have "\<exists>s. parse_makefile P L = Inr s \<and> (2, c) \<notin> set (configurations s) \<and>
      (2, c) \<notin> set (invalid_configurations s) \<and> claimed s ''foo'' [] \<noteq> Some (2, c)"
    by (rule exI)
  with j f e have "2 < length L \<and> finalised L 2 \<and> from_makefile ''CFG__foo = 7\<newline>'' = Some c \<and>
    (\<exists>s. parse_makefile P L = Inr s \<and> (2, c) \<notin> set (configurations s) \<and>
      (2, c) \<notin> set (invalid_configurations s) \<and> claimed s ''foo'' [] \<noteq> Some (2, c))"
    by (intro conjI)
  then show ?thesis unfolding L_def P_def c_def .
qed

text \<open>
  C8 as stated fails at a blank line: the blank line 1 follows the start of the block
  and does not parse as a configuration, yet the configuration of line 2 is read and
  is valid. A blank line does not end the block.
\<close>

theorem ignored_after_block_end_counterexample:
  "from_makefile ''\<newline>'' = None \<and>
   parse_makefile [''/p/foo.gen.cpp'']
     [''CFG__foo = 1\<newline>'', ''\<newline>'', ''CFG__foo__b = 2\<newline>''] =
     Inr \<lparr>saw_generator_comment = False, after_comment = 3, cfg_start = 0,
        cfg_end = 3, last_cfg = 2,
        configurations =
          [(0, \<lparr>gen = ''foo'', subcfg = [], val = ''1'',
                  orig = Some ''CFG__foo = 1\<newline>''\<rparr>),
           (2, \<lparr>gen = ''foo'', subcfg = ''b'', val = ''2'',
                  orig = Some ''CFG__foo__b = 2\<newline>''\<rparr>)],
        invalid_configurations = [],
        generator2configs =
          [(''foo'',
            [([], 0,
              \<lparr>gen = ''foo'', subcfg = [], val = ''1'',
                 orig = Some ''CFG__foo = 1\<newline>''\<rparr>),
             (''b'', 2,
              \<lparr>gen = ''foo'', subcfg = ''b'', val = ''2'',
                 orig = Some ''CFG__foo__b = 2\<newline>''\<rparr>)])],
        warnings = []\<rparr>"
  by code_simp

end
